theory Spec2Isabelle
  imports
    Main
    "HOL-Library.AList"
    "HOL-Library.Char_ord"
    "HOL-Library.List_Lexorder"
    "HOL-Library.Product_Lexorder"
begin

section \<open>The word graph\<close>

text \<open>
  \<open>self.word_graph\<close> is a \<open>defaultdict(list)\<close> from words to lists of words. It is modelled
  as an association list in insertion order. Reading \<open>self.word_graph[w]\<close> for a word that
  is not a key calls the default factory: the key is inserted with an empty list, and
  that list is the value read. \<open>getitem\<close> therefore returns the list together with the
  dictionary after the read.
\<close>

type_synonym word_graph = "(string \<times> string list) list"

definition adj :: "word_graph \<Rightarrow> string \<Rightarrow> string list" where
  "adj g w = (case map_of g w of None \<Rightarrow> [] | Some ns \<Rightarrow> ns)"

definition keys :: "word_graph \<Rightarrow> string set" where
  "keys g = fst ` set g"

definition getitem :: "word_graph \<Rightarrow> string \<Rightarrow> string list \<times> word_graph" where
  "getitem g w = (case map_of g w of None \<Rightarrow> ([], g @ [(w, [])]) | Some ns \<Rightarrow> (ns, g))"

text \<open>\<open>self.word_graph[word].append(new_word)\<close>\<close>

definition append_edge :: "word_graph \<Rightarrow> string \<Rightarrow> string \<Rightarrow> word_graph" where
  "append_edge g word new_word =
     (case getitem g word of (ns, g') \<Rightarrow> AList.update word (ns @ [new_word]) g')"

text \<open>The edge relation a graph stands for, and the words that occur in adjacency lists.\<close>

definition edges :: "word_graph \<Rightarrow> (string \<times> string) set" where
  "edges g = {(u, v). v \<in> set (adj g u)}"

definition graph_words :: "word_graph \<Rightarrow> string set" where
  "graph_words g = set (concat (map snd g))"

text \<open>Reading an adjacency list changes neither the edges nor the words of the graph.\<close>

lemma adj_getitem: "getitem g w = (ns, g') \<Longrightarrow> ns = adj g w"
  by (auto simp: getitem_def adj_def split: option.splits)

lemma adj_after_getitem: "getitem g w = (ns, g') \<Longrightarrow> adj g' = adj g"
  by (cases "map_of g w") (auto simp: getitem_def adj_def fun_eq_iff map_add_def split: option.splits if_splits)

lemma graph_words_getitem: "getitem g w = (ns, g') \<Longrightarrow> graph_words g' = graph_words g"
  by (cases "map_of g w") (force simp: getitem_def graph_words_def)+

lemma adj_subset_graph_words: "set (adj g w) \<subseteq> graph_words g"
proof
  fix v assume "v \<in> set (adj g w)"
  then obtain ns where "map_of g w = Some ns" "v \<in> set ns"
    by (cases "map_of g w") (auto simp: adj_def)
  then have "(w, ns) \<in> set g" by (auto dest: map_of_SomeD)
  with \<open>v \<in> set ns\<close> show "v \<in> graph_words g" by (force simp: graph_words_def)
qed

lemma finite_graph_words: "finite (graph_words g)"
  by (simp add: graph_words_def)

section \<open>Building the graph\<close>

definition alphabet :: string where
  "alphabet = ''abcdefghijklmnopqrstuvwxyz''"

text \<open>\<open>word[:i] + c + word[i+1:]\<close>\<close>

definition substitute :: "string \<Rightarrow> nat \<Rightarrow> char \<Rightarrow> string" where
  "substitute word i c = take i word @ [c] @ drop (i + 1) word"

text \<open>
  The body of the innermost loop of \<open>build_word_graph\<close>: \<open>challenge\<close> is the test
  \<open>self.game_mode == "Challenge"\<close>, \<open>current_dict\<close> the set of words being linked, given as
  the list of its members in the order the outer loop visits them.
\<close>

definition try_letter ::
  "bool \<Rightarrow> char set \<Rightarrow> string list \<Rightarrow> string \<Rightarrow> nat \<Rightarrow> char \<Rightarrow> word_graph \<Rightarrow> word_graph" where
  "try_letter challenge restricted_letters current_dict word i c g =
     (if challenge \<and> c \<in> restricted_letters then g
      else let new_word = substitute word i c
           in if new_word \<in> set current_dict \<and> new_word \<noteq> word
              then append_edge g word new_word else g)"

definition link_word ::
  "bool \<Rightarrow> char set \<Rightarrow> string list \<Rightarrow> string \<Rightarrow> word_graph \<Rightarrow> word_graph" where
  "link_word challenge restricted_letters current_dict word g =
     fold (\<lambda>i. fold (try_letter challenge restricted_letters current_dict word i) alphabet)
       [0 ..< length word] g"

text \<open>
  The graph construction for a given exclusion policy: the graph is cleared, in Challenge
  mode the banned words are removed from the dictionary, and every remaining word is
  linked. The policy (\<open>banned_words\<close>, \<open>restricted_letters\<close>) is what the two
  \<open>random.sample\<close> calls have stored in \<open>self\<close>; in the other modes the fields of \<open>self\<close>
  are not read.
\<close>

definition word_graph_of ::
  "bool \<Rightarrow> string list \<Rightarrow> string set \<Rightarrow> char set \<Rightarrow> word_graph" where
  "word_graph_of challenge dictionary banned_words restricted_letters =
     (let current_dict =
            (if challenge then filter (\<lambda>w. w \<notin> banned_words) dictionary else dictionary)
      in fold (link_word challenge restricted_letters current_dict) current_dict [])"

text \<open>
  \<open>build_word_graph\<close> itself draws the policy: \<open>random.sample(list(current_dict), 5)\<close>
  raises \<open>ValueError\<close> when the dictionary has fewer than five words. The values drawn
  are parameters of the model.
\<close>

datatype error = ValueError

definition build_word_graph ::
  "string \<Rightarrow> string list \<Rightarrow> string set \<Rightarrow> char set \<Rightarrow> error + word_graph" where
  "build_word_graph game_mode dictionary banned_words restricted_letters =
     (if game_mode = ''Challenge'' \<and> length dictionary < 5 then Inl ValueError
      else Inr (word_graph_of (game_mode = ''Challenge'') dictionary banned_words
                  restricted_letters))"

section \<open>The searches\<close>

text \<open>
  Each search is a \<open>while\<close> loop over a frontier. One iteration of a loop either returns
  from the method or continues with a new state; the state carries the graph, since
  reading the adjacency list of an absent word inserts it.
\<close>

datatype ('r, 's) outcome = Return 'r | Continue 's

type_synonym search_result = "(int \<times> string list) option \<times> word_graph"

text \<open>\<open>sum(1 for a, b in zip(word, self.target_word) if a != b)\<close>\<close>

definition heuristic :: "string \<Rightarrow> string \<Rightarrow> int" where
  "heuristic target_word word =
     int (length (filter (\<lambda>(a, b). a \<noteq> b) (zip word target_word)))"

text \<open>
  A \<open>heapq\<close> heap is modelled by the list of its items. \<open>heappop\<close> returns the least item;
  the items are tuples of integers, strings and lists of strings, which Python compares
  lexicographically, a total order, so the item returned does not depend on the layout of
  the heap. \<open>heappop\<close> is only called on a non-empty frontier.
\<close>

definition heappush :: "'a list \<Rightarrow> 'a \<Rightarrow> 'a list" where
  "heappush heap item = item # heap"

definition heappop :: "('a::linorder) list \<Rightarrow> 'a \<times> 'a list" where
  "heappop heap = (Min (set heap), remove1 (Min (set heap)) heap)"

lemma heappop_facts:
  assumes "heap \<noteq> []" "heappop heap = (item, heap1)"
  shows "item \<in> set heap" "\<forall>x \<in> set heap. item \<le> x" "length heap1 < length heap"
    "set heap1 \<subseteq> set heap" "set heap \<subseteq> insert item (set heap1)"
proof -
  have m: "item = Min (set heap)" and h: "heap1 = remove1 item heap"
    using assms(2) by (auto simp: heappop_def)
  show i: "item \<in> set heap" unfolding m using assms(1) by (intro Min_in) auto
  show "\<forall>x \<in> set heap. item \<le> x" unfolding m by auto
  have "0 < length heap" using assms(1) by simp
  then show "length heap1 < length heap" using i unfolding h
    by (simp add: length_remove1)
  show "set heap1 \<subseteq> set heap" unfolding h by (rule set_remove1_subset)
  show "set heap \<subseteq> insert item (set heap1)" unfolding h
    by (metis in_set_remove1 insertCI subsetI)
qed

lemma lex_decrease:
  "(a'::nat) \<le> a \<Longrightarrow> (a' = a \<Longrightarrow> (b'::nat) < b) \<Longrightarrow> ((a', b'), (a, b)) \<in> less_than <*lex*> less_than"
  by auto

subsection \<open>Breadth-first search\<close>

type_synonym bfs_state = "word_graph \<times> (string \<times> string list) list \<times> string set"

definition bfs_visit ::
  "string list \<Rightarrow> string \<Rightarrow> (string \<times> string list) list \<times> string set
     \<Rightarrow> (string \<times> string list) list \<times> string set" where
  "bfs_visit path next_word = (\<lambda>(queue, explored).
     if next_word \<notin> explored
     then (queue @ [(next_word, path @ [next_word])], insert next_word explored)
     else (queue, explored))"

definition bfs_step :: "string \<Rightarrow> bfs_state \<Rightarrow> (search_result, bfs_state) outcome" where
  "bfs_step goal = (\<lambda>(g, queue, explored).
     case queue of
       [] \<Rightarrow> Return (None, g)
     | (current, path) # rest \<Rightarrow>
         if current = goal then Return (Some (int (length path) - 1, path), g)
         else (case getitem g current of (ns, g') \<Rightarrow>
                 (case fold (bfs_visit path) ns (rest, explored) of
                    (queue', explored') \<Rightarrow> Continue (g', queue', explored'))))"

text \<open>
  The loop runs until an iteration returns. Each iteration either marks a new word of the
  graph as explored or shortens the queue, which is the termination argument.
\<close>

lemma fold_bfs_visit:
  "\<exists>new. fold (bfs_visit path) ns (queue, explored) =
            (queue @ map (\<lambda>v. (v, path @ [v])) new, explored \<union> set ns)
        \<and> distinct new \<and> set new = set ns - explored"
proof (induction ns arbitrary: queue explored)
  case Nil
  have "fold (bfs_visit path) [] (queue, explored) =
          (queue @ map (\<lambda>v. (v, path @ [v])) [], explored \<union> set [])
        \<and> distinct [] \<and> set [] = set [] - explored" by simp
  then show ?case by blast
next
  case (Cons n ns)
  show ?case
  proof (cases "n \<in> explored")
    case True
    from Cons.IH[of queue explored] obtain new where new:
      "fold (bfs_visit path) ns (queue, explored) =
         (queue @ map (\<lambda>v. (v, path @ [v])) new, explored \<union> set ns)"
      "distinct new" "set new = set ns - explored" by blast
    have step: "bfs_visit path n (queue, explored) = (queue, explored)"
      using True by (simp add: bfs_visit_def)
    have e: "explored \<union> set (n # ns) = explored \<union> set ns" using True by auto
    have d: "set (n # ns) - explored = set ns - explored" using True by auto
    have "fold (bfs_visit path) (n # ns) (queue, explored) =
         (queue @ map (\<lambda>v. (v, path @ [v])) new, explored \<union> set (n # ns))"
      unfolding e using new(1) step by simp
    with new(2,3) d show ?thesis by blast
  next
    case False
    from Cons.IH[of "queue @ [(n, path @ [n])]" "insert n explored"] obtain new where new:
      "fold (bfs_visit path) ns (queue @ [(n, path @ [n])], insert n explored) =
         ((queue @ [(n, path @ [n])]) @ map (\<lambda>v. (v, path @ [v])) new, insert n explored \<union> set ns)"
      "distinct new" "set new = set ns - insert n explored" by blast
    have step: "bfs_visit path n (queue, explored) = (queue @ [(n, path @ [n])], insert n explored)"
      using False by (simp add: bfs_visit_def)
    have e: "explored \<union> set (n # ns) = insert n explored \<union> set ns" by auto
    have d: "set (n # new) = set (n # ns) - explored" using new(3) False by auto
    have dn: "distinct (n # new)" using new(2,3) by auto
    have "fold (bfs_visit path) (n # ns) (queue, explored) =
         (queue @ map (\<lambda>v. (v, path @ [v])) (n # new), explored \<union> set (n # ns))"
      unfolding e using new(1) step by simp
    with d dn show ?thesis by blast
  qed
qed


definition bfs_measure :: "(string \<times> bfs_state) \<Rightarrow> nat \<times> nat" where
  "bfs_measure = (\<lambda>(goal, g, queue, explored). (card (graph_words g - explored), length queue))"

lemma bfs_step_decreases:
  assumes "bfs_step goal s = Continue s'"
  shows "((goal, s'), (goal, s)) \<in> inv_image (less_than <*lex*> less_than) bfs_measure"
proof -
  obtain g queue explored where s: "s = (g, queue, explored)" by (cases s) auto
  from assms s obtain current path rest where q: "queue = (current, path) # rest"
    by (cases queue) (auto simp: bfs_step_def)
  obtain ns g' where gi: "getitem g current = (ns, g')" by (cases "getitem g current") auto
  from fold_bfs_visit[of path ns rest explored] obtain new where
    f: "fold (bfs_visit path) ns (rest, explored) =
         (rest @ map (\<lambda>v. (v, path @ [v])) new, explored \<union> set ns)"
    and n: "set new = set ns - explored" by blast
  from assms s q gi f have s': "s' = (g', rest @ map (\<lambda>v. (v, path @ [v])) new, explored \<union> set ns)"
    by (auto simp: bfs_step_def split: if_splits)
  have gw: "graph_words g' = graph_words g" using gi by (rule graph_words_getitem)
  have sub: "set ns \<subseteq> graph_words g" using adj_getitem[OF gi] adj_subset_graph_words by simp
  show ?thesis
  proof (cases "new = []")
    case True
    then have "set ns \<subseteq> explored" using n by auto
    then have "explored \<union> set ns = explored" by auto
    with True show ?thesis by (simp add: s s' q bfs_measure_def gw)
  next
    case False
    then obtain v where v: "v \<in> set ns" "v \<notin> explored" using n by (cases new) auto
    have "graph_words g - (explored \<union> set ns) \<subset> graph_words g - explored"
      using v sub by auto
    then have "card (graph_words g - (explored \<union> set ns)) < card (graph_words g - explored)"
      by (intro psubset_card_mono) (auto simp: finite_graph_words)
    then show ?thesis by (simp add: s s' q bfs_measure_def gw)
  qed
qed


function bfs_loop :: "string \<Rightarrow> bfs_state \<Rightarrow> search_result" where
  "bfs_loop goal s = (case bfs_step goal s of Return r \<Rightarrow> r | Continue s' \<Rightarrow> bfs_loop goal s')"
  by pat_completeness auto
termination
proof (relation "inv_image (less_than <*lex*> less_than) bfs_measure")
  show "wf (inv_image (less_than <*lex*> less_than) bfs_measure)"
    by (intro wf_inv_image wf_lex_prod wf_less_than)
next
  fix goal s s' assume "bfs_step goal s = Continue s'"
  then show "((goal, s'), (goal, s)) \<in> inv_image (less_than <*lex*> less_than) bfs_measure"
    by (rule bfs_step_decreases)
qed

declare bfs_loop.simps [simp del]

definition breadth_first_search :: "word_graph \<Rightarrow> string \<Rightarrow> string \<Rightarrow> search_result" where
  "breadth_first_search g start goal = bfs_loop goal (g, [(start, [start])], {start})"

subsection \<open>Uniform-cost search\<close>

type_synonym ucs_item = "int \<times> string \<times> string list"
type_synonym ucs_state = "word_graph \<times> ucs_item list \<times> string set"

definition ucs_visit ::
  "string set \<Rightarrow> int \<Rightarrow> string list \<Rightarrow> string \<Rightarrow> ucs_item list \<Rightarrow> ucs_item list" where
  "ucs_visit explored cost path next_word frontier =
     (if next_word \<notin> explored
      then heappush frontier (cost + 1, next_word, path @ [next_word])
      else frontier)"

definition ucs_step :: "string \<Rightarrow> ucs_state \<Rightarrow> (search_result, ucs_state) outcome" where
  "ucs_step goal = (\<lambda>(g, frontier, explored).
     if frontier = [] then Return (None, g)
     else (case heappop frontier of ((cost, current, path), frontier1) \<Rightarrow>
       if current = goal then Return (Some (cost, path), g)
       else if current \<in> explored then Continue (g, frontier1, explored)
       else (case getitem g current of (ns, g') \<Rightarrow>
               Continue (g', fold (ucs_visit (insert current explored) cost path) ns frontier1,
                         insert current explored))))"

text \<open>
  Each iteration that expands a word adds it to the explored set; every other continuing
  iteration only removes an item from the frontier.
\<close>

lemma set_fold_ucs_visit:
  "set (fold (ucs_visit explored cost path) ns frontier) =
     set frontier \<union> (\<lambda>v. (cost + 1, v, path @ [v])) ` (set ns - explored)"
  by (induction ns arbitrary: frontier) (auto simp: ucs_visit_def heappush_def)

definition ucs_measure :: "(string \<times> ucs_state) \<Rightarrow> nat \<times> nat" where
  "ucs_measure = (\<lambda>(goal, g, frontier, explored).
     (card ((graph_words g \<union> (fst \<circ> snd) ` set frontier) - explored), length frontier))"

lemma ucs_step_decreases:
  assumes "ucs_step goal s = Continue s'"
  shows "((goal, s'), (goal, s)) \<in> inv_image (less_than <*lex*> less_than) ucs_measure"
proof -
  obtain g frontier explored where s: "s = (g, frontier, explored)" by (cases s) auto
  from assms s have ne: "frontier \<noteq> []" by (auto simp: ucs_step_def)
  obtain cost current path frontier1 where
    pop: "heappop frontier = ((cost, current, path), frontier1)"
    by (cases "heappop frontier") auto
  note hp = heappop_facts[OF ne pop]
  let ?W = "\<lambda>fr. (fst \<circ> snd) ` set (fr :: ucs_item list)"
  have fin: "finite ((graph_words g \<union> ?W frontier) - explored)"
    by (simp add: finite_graph_words)
  show ?thesis
  proof (cases "current \<in> explored")
    case True
    with assms s ne pop have s': "s' = (g, frontier1, explored)"
      by (auto simp: ucs_step_def split: if_splits)
    have "(graph_words g \<union> ?W frontier1) - explored \<subseteq> (graph_words g \<union> ?W frontier) - explored"
      using hp(4) by auto
    then have "card ((graph_words g \<union> ?W frontier1) - explored)
                 \<le> card ((graph_words g \<union> ?W frontier) - explored)"
      using fin by (rule card_mono[rotated])
    then have "((card ((graph_words g \<union> ?W frontier1) - explored), length frontier1),
                (card ((graph_words g \<union> ?W frontier) - explored), length frontier))
                 \<in> less_than <*lex*> less_than"
      using hp(3) by (intro lex_decrease)
    then show ?thesis by (simp add: s s' ucs_measure_def)
  next
    case False
    obtain ns g' where gi: "getitem g current = (ns, g')" by (cases "getitem g current") auto
    let ?fr = "fold (ucs_visit (insert current explored) cost path) ns frontier1"
    from assms s ne pop gi False have s': "s' = (g', ?fr, insert current explored)"
      by (auto simp: ucs_step_def split: if_splits)
    have gw: "graph_words g' = graph_words g" using gi by (rule graph_words_getitem)
    have sub: "set ns \<subseteq> graph_words g" using adj_getitem[OF gi] adj_subset_graph_words by simp
    have W: "?W ?fr \<subseteq> ?W frontier1 \<union> set ns"
      unfolding set_fold_ucs_visit by auto
    have cur: "current \<in> ?W frontier" using hp(1) by force
    have "(graph_words g \<union> ?W ?fr) - insert current explored
            \<subset> (graph_words g \<union> ?W frontier) - explored"
      using W sub hp(4) cur False by auto
    then have "card ((graph_words g \<union> ?W ?fr) - insert current explored)
                 < card ((graph_words g \<union> ?W frontier) - explored)"
      using fin by (intro psubset_card_mono)
    then show ?thesis by (simp add: s s' ucs_measure_def gw)
  qed
qed

function ucs_loop :: "string \<Rightarrow> ucs_state \<Rightarrow> search_result" where
  "ucs_loop goal s = (case ucs_step goal s of Return r \<Rightarrow> r | Continue s' \<Rightarrow> ucs_loop goal s')"
  by pat_completeness auto
termination
proof (relation "inv_image (less_than <*lex*> less_than) ucs_measure")
  show "wf (inv_image (less_than <*lex*> less_than) ucs_measure)"
    by (intro wf_inv_image wf_lex_prod wf_less_than)
next
  fix goal s s' assume "ucs_step goal s = Continue s'"
  then show "((goal, s'), (goal, s)) \<in> inv_image (less_than <*lex*> less_than) ucs_measure"
    by (rule ucs_step_decreases)
qed

declare ucs_loop.simps [simp del]

definition uniform_cost_search :: "word_graph \<Rightarrow> string \<Rightarrow> string \<Rightarrow> search_result" where
  "uniform_cost_search g start goal = ucs_loop goal (g, [(0, start, [start])], {})"

subsection \<open>A* search\<close>

type_synonym astar_item = "int \<times> int \<times> string \<times> string list"
type_synonym astar_state = "word_graph \<times> astar_item list \<times> string set"

definition astar_visit ::
  "string \<Rightarrow> string set \<Rightarrow> int \<Rightarrow> string list \<Rightarrow> string \<Rightarrow> astar_item list
     \<Rightarrow> astar_item list" where
  "astar_visit goal explored cost path next_word frontier =
     (if next_word \<notin> explored
      then heappush frontier
             (cost + 1 + heuristic goal next_word, cost + 1, next_word, path @ [next_word])
      else frontier)"

definition astar_step :: "string \<Rightarrow> astar_state \<Rightarrow> (search_result, astar_state) outcome" where
  "astar_step goal = (\<lambda>(g, frontier, explored).
     if frontier = [] then Return (None, g)
     else (case heappop frontier of ((priority, cost, current, path), frontier1) \<Rightarrow>
       if current = goal then Return (Some (cost, path), g)
       else if current \<in> explored then Continue (g, frontier1, explored)
       else (case getitem g current of (ns, g') \<Rightarrow>
               Continue (g', fold (astar_visit goal (insert current explored) cost path) ns
                               frontier1,
                         insert current explored))))"

lemma set_fold_astar_visit:
  "set (fold (astar_visit goal explored cost path) ns frontier) =
     set frontier \<union>
     (\<lambda>v. (cost + 1 + heuristic goal v, cost + 1, v, path @ [v])) ` (set ns - explored)"
  by (induction ns arbitrary: frontier) (auto simp: astar_visit_def heappush_def)

definition astar_measure :: "(string \<times> astar_state) \<Rightarrow> nat \<times> nat" where
  "astar_measure = (\<lambda>(goal, g, frontier, explored).
     (card ((graph_words g \<union> (fst \<circ> snd \<circ> snd) ` set frontier) - explored), length frontier))"

lemma astar_step_decreases:
  assumes "astar_step goal s = Continue s'"
  shows "((goal, s'), (goal, s)) \<in> inv_image (less_than <*lex*> less_than) astar_measure"
proof -
  obtain g frontier explored where s: "s = (g, frontier, explored)" by (cases s) auto
  from assms s have ne: "frontier \<noteq> []" by (auto simp: astar_step_def)
  obtain priority cost current path frontier1 where
    pop: "heappop frontier = ((priority, cost, current, path), frontier1)"
    by (cases "heappop frontier") auto
  note hp = heappop_facts[OF ne pop]
  let ?W = "\<lambda>fr. (fst \<circ> snd \<circ> snd) ` set (fr :: astar_item list)"
  have fin: "finite ((graph_words g \<union> ?W frontier) - explored)"
    by (simp add: finite_graph_words)
  show ?thesis
  proof (cases "current \<in> explored")
    case True
    with assms s ne pop have s': "s' = (g, frontier1, explored)"
      by (auto simp: astar_step_def split: if_splits)
    have "(graph_words g \<union> ?W frontier1) - explored \<subseteq> (graph_words g \<union> ?W frontier) - explored"
      using hp(4) by auto
    then have "card ((graph_words g \<union> ?W frontier1) - explored)
                 \<le> card ((graph_words g \<union> ?W frontier) - explored)"
      using fin by (rule card_mono[rotated])
    then have "((card ((graph_words g \<union> ?W frontier1) - explored), length frontier1),
                (card ((graph_words g \<union> ?W frontier) - explored), length frontier))
                 \<in> less_than <*lex*> less_than"
      using hp(3) by (intro lex_decrease)
    then show ?thesis by (simp add: s s' astar_measure_def)
  next
    case False
    obtain ns g' where gi: "getitem g current = (ns, g')" by (cases "getitem g current") auto
    let ?fr = "fold (astar_visit goal (insert current explored) cost path) ns frontier1"
    from assms s ne pop gi False have s': "s' = (g', ?fr, insert current explored)"
      by (auto simp: astar_step_def split: if_splits)
    have gw: "graph_words g' = graph_words g" using gi by (rule graph_words_getitem)
    have sub: "set ns \<subseteq> graph_words g" using adj_getitem[OF gi] adj_subset_graph_words by simp
    have W: "?W ?fr \<subseteq> ?W frontier1 \<union> set ns"
      unfolding set_fold_astar_visit by auto
    have cur: "current \<in> ?W frontier" using hp(1) by force
    have "(graph_words g \<union> ?W ?fr) - insert current explored
            \<subset> (graph_words g \<union> ?W frontier) - explored"
      using W sub hp(4) cur False by auto
    then have "card ((graph_words g \<union> ?W ?fr) - insert current explored)
                 < card ((graph_words g \<union> ?W frontier) - explored)"
      using fin by (intro psubset_card_mono)
    then show ?thesis by (simp add: s s' astar_measure_def gw)
  qed
qed

function astar_loop :: "string \<Rightarrow> astar_state \<Rightarrow> search_result" where
  "astar_loop goal s = (case astar_step goal s of Return r \<Rightarrow> r | Continue s' \<Rightarrow> astar_loop goal s')"
  by pat_completeness auto
termination
proof (relation "inv_image (less_than <*lex*> less_than) astar_measure")
  show "wf (inv_image (less_than <*lex*> less_than) astar_measure)"
    by (intro wf_inv_image wf_lex_prod wf_less_than)
next
  fix goal s s' assume "astar_step goal s = Continue s'"
  then show "((goal, s'), (goal, s)) \<in> inv_image (less_than <*lex*> less_than) astar_measure"
    by (rule astar_step_decreases)
qed

declare astar_loop.simps [simp del]

definition a_star_search :: "word_graph \<Rightarrow> string \<Rightarrow> string \<Rightarrow> search_result" where
  "a_star_search g start goal = astar_loop goal (g, [(heuristic goal start, 0, start, [start])], {})"

subsection \<open>Reachability check\<close>

type_synonym cpe_state = "word_graph \<times> string list \<times> string set"

text \<open>The inner \<open>for\<close> loop of \<open>check_path_exists\<close>, which may return from the method.\<close>

fun cpe_scan ::
  "string \<Rightarrow> string list \<Rightarrow> string list \<Rightarrow> string set
     \<Rightarrow> (bool, string list \<times> string set) outcome" where
  "cpe_scan target [] queue visited = Continue (queue, visited)"
| "cpe_scan target (next_word # ns) queue visited =
     (if next_word = target then Return True
      else if next_word \<notin> visited
           then cpe_scan target ns (queue @ [next_word]) (insert next_word visited)
           else cpe_scan target ns queue visited)"

definition cpe_step :: "string \<Rightarrow> cpe_state \<Rightarrow> (bool \<times> word_graph, cpe_state) outcome" where
  "cpe_step target = (\<lambda>(g, queue, visited).
     case queue of
       [] \<Rightarrow> Return (False, g)
     | word # rest \<Rightarrow>
         (case getitem g word of (ns, g') \<Rightarrow>
            (case cpe_scan target ns rest visited of
               Return b \<Rightarrow> Return (b, g')
             | Continue (queue', visited') \<Rightarrow> Continue (g', queue', visited'))))"

lemma cpe_scan_Continue:
  "cpe_scan target ns queue visited = Continue (queue', visited') \<Longrightarrow>
     \<exists>new. queue' = queue @ new \<and> visited' = visited \<union> set ns
         \<and> set new = set ns - visited \<and> distinct new \<and> target \<notin> set ns"
proof (induction ns arbitrary: queue visited)
  case Nil
  then have "queue' = queue @ [] \<and> visited' = visited \<union> set []
         \<and> set [] = set [] - visited \<and> distinct [] \<and> target \<notin> set []" by simp
  then show ?case by blast
next
  case (Cons n ns)
  from Cons.prems have nt: "n \<noteq> target" by (auto split: if_splits)
  show ?case
  proof (cases "n \<in> visited")
    case True
    with Cons.prems nt have "cpe_scan target ns queue visited = Continue (queue', visited')"
      by simp
    from Cons.IH[OF this] obtain new where new: "queue' = queue @ new"
      "visited' = visited \<union> set ns" "set new = set ns - visited" "distinct new"
      "target \<notin> set ns" by blast
    have "visited' = visited \<union> set (n # ns)" using new(2) True by auto
    moreover have "set new = set (n # ns) - visited" using new(3) True by auto
    moreover have "target \<notin> set (n # ns)" using new(5) nt by auto
    ultimately show ?thesis using new(1,4) by blast
  next
    case False
    with Cons.prems nt have
      "cpe_scan target ns (queue @ [n]) (insert n visited) = Continue (queue', visited')"
      by simp
    from Cons.IH[OF this] obtain new where new: "queue' = (queue @ [n]) @ new"
      "visited' = insert n visited \<union> set ns" "set new = set ns - insert n visited"
      "distinct new" "target \<notin> set ns" by blast
    have "queue' = queue @ (n # new)" using new(1) by simp
    moreover have "visited' = visited \<union> set (n # ns)" using new(2) by auto
    moreover have "set (n # new) = set (n # ns) - visited" using new(3) False by auto
    moreover have "distinct (n # new)" using new(3,4) by auto
    moreover have "target \<notin> set (n # ns)" using new(5) nt by auto
    ultimately show ?thesis by blast
  qed
qed

lemma cpe_scan_Return:
  "cpe_scan target ns queue visited = Return b \<Longrightarrow> b \<and> target \<in> set ns"
  by (induction ns arbitrary: queue visited) (auto split: if_splits)

definition cpe_measure :: "(string \<times> cpe_state) \<Rightarrow> nat \<times> nat" where
  "cpe_measure = (\<lambda>(target, g, queue, visited). (card (graph_words g - visited), length queue))"

lemma cpe_step_decreases:
  assumes "cpe_step target s = Continue s'"
  shows "((target, s'), (target, s)) \<in> inv_image (less_than <*lex*> less_than) cpe_measure"
proof -
  obtain g queue visited where s: "s = (g, queue, visited)" by (cases s) auto
  from assms s obtain word rest where q: "queue = word # rest"
    by (cases queue) (auto simp: cpe_step_def)
  obtain ns g' where gi: "getitem g word = (ns, g')" by (cases "getitem g word") auto
  from assms s q gi obtain queue' visited' where
    sc: "cpe_scan target ns rest visited = Continue (queue', visited')"
    and s': "s' = (g', queue', visited')"
    by (cases "cpe_scan target ns rest visited") (auto simp: cpe_step_def)
  from cpe_scan_Continue[OF sc] obtain new where new: "queue' = rest @ new"
    "visited' = visited \<union> set ns" "set new = set ns - visited" by blast
  have gw: "graph_words g' = graph_words g" using gi by (rule graph_words_getitem)
  have sub: "set ns \<subseteq> graph_words g" using adj_getitem[OF gi] adj_subset_graph_words by simp
  show ?thesis
  proof (cases "new = []")
    case True
    then have "set ns \<subseteq> visited" using new(3) by auto
    then have "visited \<union> set ns = visited" by auto
    with True show ?thesis by (simp add: s s' q new cpe_measure_def gw)
  next
    case False
    then obtain v where v: "v \<in> set ns" "v \<notin> visited" using new(3) by (cases new) auto
    have "graph_words g - (visited \<union> set ns) \<subset> graph_words g - visited"
      using v sub by auto
    then have "card (graph_words g - (visited \<union> set ns)) < card (graph_words g - visited)"
      by (intro psubset_card_mono) (auto simp: finite_graph_words)
    then show ?thesis by (simp add: s s' q new cpe_measure_def gw)
  qed
qed

function cpe_loop :: "string \<Rightarrow> cpe_state \<Rightarrow> bool \<times> word_graph" where
  "cpe_loop target s =
     (case cpe_step target s of Return r \<Rightarrow> r | Continue s' \<Rightarrow> cpe_loop target s')"
  by pat_completeness auto
termination
proof (relation "inv_image (less_than <*lex*> less_than) cpe_measure")
  show "wf (inv_image (less_than <*lex*> less_than) cpe_measure)"
    by (intro wf_inv_image wf_lex_prod wf_less_than)
next
  fix target s s' assume "cpe_step target s = Continue s'"
  then show "((target, s'), (target, s)) \<in> inv_image (less_than <*lex*> less_than) cpe_measure"
    by (rule cpe_step_decreases)
qed

declare cpe_loop.simps [simp del]

definition check_path_exists :: "word_graph \<Rightarrow> string \<Rightarrow> string \<Rightarrow> bool \<times> word_graph" where
  "check_path_exists g start target =
     (if start = target then (True, g) else cpe_loop target (g, [start], {start}))"

text \<open>
  Running a loop with a bounded number of iterations: \<open>None\<close> when the bound is reached
  before an iteration returns.
\<close>

fun run :: "('s \<Rightarrow> ('r, 's) outcome) \<Rightarrow> nat \<Rightarrow> 's \<Rightarrow> 'r option" where
  "run step 0 s = None"
| "run step (Suc n) s = (case step s of Return r \<Rightarrow> Some r | Continue s' \<Rightarrow> run step n s')"

text \<open>The state after a number of iterations, while the loop is still running.\<close>

fun state_after :: "('s \<Rightarrow> ('r, 's) outcome) \<Rightarrow> nat \<Rightarrow> 's \<Rightarrow> 's option" where
  "state_after step 0 s = Some s"
| "state_after step (Suc n) s =
     (case step s of Return r \<Rightarrow> None | Continue s' \<Rightarrow> state_after step n s')"

section \<open>Properties of the graph construction\<close>

text \<open>
  Two words differ only at position \<open>i\<close> when they have the same length, their letters at
  \<open>i\<close> differ, and all other letters agree. \<open>effective_words\<close> is the set of words that are
  linked, \<open>letter_allowed\<close> the test a replacement letter has to pass.
\<close>

definition differ_only_at :: "string \<Rightarrow> string \<Rightarrow> nat \<Rightarrow> bool" where
  "differ_only_at u v i =
     (length u = length v \<and> i < length u \<and> u ! i \<noteq> v ! i
      \<and> (\<forall>j < length u. j \<noteq> i \<longrightarrow> u ! j = v ! j))"

definition effective_words :: "bool \<Rightarrow> string list \<Rightarrow> string set \<Rightarrow> string set" where
  "effective_words challenge dictionary banned_words =
     (if challenge then set dictionary - banned_words else set dictionary)"

definition letter_allowed :: "bool \<Rightarrow> char set \<Rightarrow> char \<Rightarrow> bool" where
  "letter_allowed challenge restricted_letters c = (\<not> (challenge \<and> c \<in> restricted_letters))"

lemma adj_append_edge:
  "adj (append_edge g word new_word) x =
     (if x = word then adj g word @ [new_word] else adj g x)"
proof -
  obtain ns g' where gi: "getitem g word = (ns, g')" by (cases "getitem g word") auto
  have ns: "ns = adj g word" using gi by (rule adj_getitem)
  have a: "adj g' = adj g" using gi by (rule adj_after_getitem)
  have "adj (AList.update word (ns @ [new_word]) g') x =
          (if x = word then ns @ [new_word] else adj g' x)"
    by (simp add: adj_def update_conv')
  then show ?thesis by (simp add: append_edge_def gi ns a)
qed

definition candidate ::
  "bool \<Rightarrow> char set \<Rightarrow> string list \<Rightarrow> string \<Rightarrow> nat \<Rightarrow> char \<Rightarrow> bool" where
  "candidate challenge restricted_letters current_dict word i c =
     (letter_allowed challenge restricted_letters c
      \<and> substitute word i c \<in> set current_dict \<and> substitute word i c \<noteq> word)"

lemma set_adj_try_letter:
  "set (adj (try_letter ch rl cd word i c g) x) =
     set (adj g x) \<union> (if x = word \<and> candidate ch rl cd word i c then {substitute word i c} else {})"
  by (auto simp: try_letter_def candidate_def letter_allowed_def adj_append_edge Let_def)

lemma set_adj_fold_try_letter:
  "set (adj (fold (try_letter ch rl cd word i) cs g) x) =
     set (adj g x) \<union>
     (if x = word then {substitute word i c | c. c \<in> set cs \<and> candidate ch rl cd word i c} else {})"
proof (induction cs arbitrary: g)
  case Nil
  show ?case by simp
next
  case (Cons c cs)
  show ?case by (simp add: Cons.IH set_adj_try_letter) blast
qed

lemma set_adj_link_word_aux:
  "set (adj (fold (\<lambda>i. fold (try_letter ch rl cd word i) cs) is g) x) =
     set (adj g x) \<union>
     (if x = word
      then {substitute word i c | i c. i \<in> set is \<and> c \<in> set cs \<and> candidate ch rl cd word i c}
      else {})"
proof (induction "is" arbitrary: g)
  case Nil
  show ?case by simp
next
  case (Cons i "is")
  show ?case by (simp add: Cons.IH set_adj_fold_try_letter) blast
qed

lemma set_adj_link_word:
  "set (adj (link_word ch rl cd word g) x) =
     set (adj g x) \<union>
     (if x = word
      then {substitute word i c | i c. i < length word \<and> c \<in> set alphabet
              \<and> candidate ch rl cd word i c}
      else {})"
  by (simp add: link_word_def set_adj_link_word_aux)

lemma set_adj_fold_link_word:
  "set (adj (fold (link_word ch rl cd) ws g) x) =
     set (adj g x) \<union>
     (if x \<in> set ws
      then {substitute x i c | i c. i < length x \<and> c \<in> set alphabet \<and> candidate ch rl cd x i c}
      else {})"
proof (induction ws arbitrary: g)
  case Nil
  show ?case by simp
next
  case (Cons w ws)
  show ?case by (simp add: Cons.IH set_adj_link_word)
qed

lemma set_current_dict:
  "set (if ch then filter (\<lambda>w. w \<notin> bw) D else D) = effective_words ch D bw"
  by (auto simp: effective_words_def)

lemma adj_Nil: "adj [] x = []"
  by (simp add: adj_def)

lemma set_adj_word_graph_of:
  "set (adj (word_graph_of ch D bw rl) u) =
     (if u \<in> effective_words ch D bw
      then {substitute u i c | i c. i < length u \<and> c \<in> set alphabet
              \<and> letter_allowed ch rl c
              \<and> substitute u i c \<in> effective_words ch D bw \<and> substitute u i c \<noteq> u}
      else {})"
  unfolding word_graph_of_def Let_def set_adj_fold_link_word candidate_def set_current_dict adj_Nil
  by simp

lemma substitute_update: "i < length u \<Longrightarrow> substitute u i c = u[i := c]"
  by (simp add: substitute_def upd_conv_take_nth_drop)

lemma differ_only_at_update:
  assumes "i < length u"
  shows "(v = u[i := c] \<and> v \<noteq> u) = (differ_only_at u v i \<and> v ! i = c)"
proof
  assume a: "v = u[i := c] \<and> v \<noteq> u"
  then have "c \<noteq> u ! i" by (metis list_update_id)
  with a assms show "differ_only_at u v i \<and> v ! i = c"
    by (auto simp: differ_only_at_def)
next
  assume a: "differ_only_at u v i \<and> v ! i = c"
  then have "v = u[i := c]"
    by (intro nth_equalityI) (auto simp: differ_only_at_def nth_list_update)
  moreover have "v \<noteq> u" using a by (auto simp: differ_only_at_def)
  ultimately show "v = u[i := c] \<and> v \<noteq> u" by simp
qed

lemma edge_word_graph_of:
  "(v \<in> set (adj (word_graph_of ch D bw rl) u)) =
     (u \<in> effective_words ch D bw \<and> v \<in> effective_words ch D bw
      \<and> (\<exists>i. differ_only_at u v i \<and> v ! i \<in> set alphabet \<and> letter_allowed ch rl (v ! i)))"
proof -
  have "(v \<in> set (adj (word_graph_of ch D bw rl) u)) =
     (u \<in> effective_words ch D bw \<and> v \<in> effective_words ch D bw
      \<and> (\<exists>i c. i < length u \<and> c \<in> set alphabet \<and> letter_allowed ch rl c
            \<and> (v = substitute u i c \<and> v \<noteq> u)))"
    unfolding set_adj_word_graph_of by auto
  also have "\<dots> = (u \<in> effective_words ch D bw \<and> v \<in> effective_words ch D bw
      \<and> (\<exists>i c. i < length u \<and> c \<in> set alphabet \<and> letter_allowed ch rl c
            \<and> (v = u[i := c] \<and> v \<noteq> u)))"
    by (simp add: substitute_update cong: conj_cong)
  also have "\<dots> = (u \<in> effective_words ch D bw \<and> v \<in> effective_words ch D bw
      \<and> (\<exists>i c. i < length u \<and> c \<in> set alphabet \<and> letter_allowed ch rl c
            \<and> (differ_only_at u v i \<and> v ! i = c)))"
    using differ_only_at_update by blast
  also have "\<dots> = (u \<in> effective_words ch D bw \<and> v \<in> effective_words ch D bw
      \<and> (\<exists>i. differ_only_at u v i \<and> v ! i \<in> set alphabet \<and> letter_allowed ch rl (v ! i)))"
    by (auto simp: differ_only_at_def)
  finally show ?thesis .
qed



lemma differ_only_at_sym: "differ_only_at u v i = differ_only_at v u i"
  by (auto simp: differ_only_at_def)

lemma effective_words_subset: "effective_words ch D bw \<subseteq> set D"
  by (auto simp: effective_words_def)

lemma differ_only_at_unique:
  "differ_only_at u v i \<Longrightarrow> differ_only_at u v j \<Longrightarrow> i = j"
  unfolding differ_only_at_def by metis

text \<open>
  \<open>usable_letter\<close>: a letter the loop can write into a new word: one of the twenty-six
  letters of the alphabet that the policy in force does not exclude.
\<close>

definition usable_letter :: "string \<Rightarrow> char set \<Rightarrow> char \<Rightarrow> bool" where
  "usable_letter game_mode restricted_letters c =
     (c \<in> set alphabet \<and> letter_allowed (game_mode = ''Challenge'') restricted_letters c)"

lemma build_word_graph_Inr:
  assumes "build_word_graph game_mode dictionary banned_words restricted_letters = Inr g"
  shows "g = word_graph_of (game_mode = ''Challenge'') dictionary banned_words restricted_letters"
  using assms by (simp add: build_word_graph_def split: if_splits)

lemma build_word_graph_Inl:
  "(build_word_graph game_mode dictionary banned_words restricted_letters = Inl ValueError)
     = (game_mode = ''Challenge'' \<and> length dictionary < 5)"
  by (simp add: build_word_graph_def)

lemma build_word_graph_edge:
  assumes "build_word_graph game_mode dictionary banned_words restricted_letters = Inr g"
  shows "(v \<in> set (adj g u)) =
     (u \<in> effective_words (game_mode = ''Challenge'') dictionary banned_words
      \<and> v \<in> effective_words (game_mode = ''Challenge'') dictionary banned_words
      \<and> (\<exists>i. differ_only_at u v i \<and> usable_letter game_mode restricted_letters (v ! i)))"
  unfolding build_word_graph_Inr[OF assms] edge_word_graph_of usable_letter_def by simp

text \<open>
  C1. The build does not produce a graph for the scenario of a dictionary of three words
  with a banned letter: the policy is in force in Challenge mode only, and there the five
  banned words are drawn from the dictionary first, which fails on fewer than five words.
\<close>

theorem build_small_dictionary_counterexample:
  "build_word_graph ''Challenge'' [''hot'', ''hat'', ''cat''] {} {CHR ''o''} = Inl ValueError"
  by (simp add: build_word_graph_def)

text \<open>
  C1, as the code has it. \<open>build_word_graph\<close> raises \<open>ValueError\<close> exactly in Challenge mode
  on a dictionary of fewer than five words. Otherwise the graph it builds has the entry
  \<open>u \<rightarrow> v\<close> exactly when both words are in the effective set (in Challenge mode the
  dictionary without the banned words, otherwise the dictionary), have the same length,
  are distinct and differ in exactly one position, and the letter of \<open>v\<close> at that position
  is one of the twenty-six lowercase letters and, in Challenge mode, not a banned letter.
\<close>

theorem build_word_graph_edges:
  "(build_word_graph game_mode dictionary banned_words restricted_letters = Inl ValueError)
     = (game_mode = ''Challenge'' \<and> length dictionary < 5)
   \<and> (\<forall>g. build_word_graph game_mode dictionary banned_words restricted_letters = Inr g \<longrightarrow>
         (\<forall>u v. (v \<in> set (adj g u)) =
            (u \<in> effective_words (game_mode = ''Challenge'') dictionary banned_words
             \<and> v \<in> effective_words (game_mode = ''Challenge'') dictionary banned_words
             \<and> length u = length v \<and> v \<noteq> u
             \<and> (\<exists>i. differ_only_at u v i
                    \<and> usable_letter game_mode restricted_letters (v ! i)))))"
proof (intro conjI allI impI)
  show "(build_word_graph game_mode dictionary banned_words restricted_letters = Inl ValueError)
     = (game_mode = ''Challenge'' \<and> length dictionary < 5)"
    by (rule build_word_graph_Inl)
next
  fix g u v
  assume b: "build_word_graph game_mode dictionary banned_words restricted_letters = Inr g"
  have "length u = length v \<and> v \<noteq> u" if "differ_only_at u v i" for i
    using that by (auto simp: differ_only_at_def)
  then show "(v \<in> set (adj g u)) =
            (u \<in> effective_words (game_mode = ''Challenge'') dictionary banned_words
             \<and> v \<in> effective_words (game_mode = ''Challenge'') dictionary banned_words
             \<and> length u = length v \<and> v \<noteq> u
             \<and> (\<exists>i. differ_only_at u v i
                    \<and> usable_letter game_mode restricted_letters (v ! i)))"
    unfolding build_word_graph_edge[OF b] by blast
qed


text \<open>
  The default Challenge dictionary, with five of its words banned and the letters
  \<open>o\<close>, \<open>x\<close> and \<open>z\<close> banned: \<open>word \<rightarrow> ward\<close> is an entry, and \<open>ward \<rightarrow> word\<close> is not, since it
  would write the banned letter \<open>o\<close>.
\<close>

theorem build_word_graph_edges_witness:
  "build_word_graph ''Challenge''
      [''word'', ''ward'', ''warm'', ''worm'', ''worn'', ''corn'', ''coin'', ''cold'', ''bold'', ''hold'']
      {''corn'', ''coin'', ''cold'', ''bold'', ''hold''} {CHR ''o'', CHR ''x'', CHR ''z''} \<noteq> Inl ValueError
   \<and> (\<exists>g. build_word_graph ''Challenge''
      [''word'', ''ward'', ''warm'', ''worm'', ''worn'', ''corn'', ''coin'', ''cold'', ''bold'', ''hold'']
      {''corn'', ''coin'', ''cold'', ''bold'', ''hold''} {CHR ''o'', CHR ''x'', CHR ''z''} = Inr g
          \<and> ''ward'' \<in> set (adj g ''word'') \<and> ''word'' \<notin> set (adj g ''ward''))"
proof -
  let ?D = "[''word'', ''ward'', ''warm'', ''worm'', ''worn'', ''corn'', ''coin'', ''cold'', ''bold'', ''hold'']"
  let ?bw = "{''corn'', ''coin'', ''cold'', ''bold'', ''hold''}"
  let ?rl = "{CHR ''o'', CHR ''x'', CHR ''z''}"
  let ?g = "word_graph_of True ?D ?bw ?rl"
  have b: "build_word_graph ''Challenge'' ?D ?bw ?rl = Inr ?g"
    by (simp add: build_word_graph_def)
  note edge = build_word_graph_edges[of "''Challenge''" ?D ?bw ?rl, THEN conjunct2,
      rule_format, OF b]
  have e: "''word'' \<in> effective_words (''Challenge'' = ''Challenge'') ?D ?bw"
    "''ward'' \<in> effective_words (''Challenge'' = ''Challenge'') ?D ?bw"
    by (simp_all add: effective_words_def)
  have yes: "differ_only_at ''word'' ''ward'' 1
             \<and> usable_letter ''Challenge'' ?rl (''ward'' ! 1)"
    by (auto simp: differ_only_at_def usable_letter_def letter_allowed_def alphabet_def
        less_Suc_eq numeral_eq_Suc)
  have no: "\<not> (\<exists>i. differ_only_at ''ward'' ''word'' i
                  \<and> usable_letter ''Challenge'' ?rl (''word'' ! i))"
    by (auto simp: differ_only_at_def usable_letter_def letter_allowed_def
        less_Suc_eq numeral_eq_Suc)
  have "''ward'' \<in> set (adj ?g ''word'')"
  proof -
    from yes have "\<exists>i. differ_only_at ''word'' ''ward'' i
                     \<and> usable_letter ''Challenge'' ?rl (''ward'' ! i)" by (rule exI)
    moreover have "length ''word'' = length ''ward''" "''ward'' \<noteq> ''word''" by simp_all
    ultimately show ?thesis using e by (intro edge[THEN iffD2] conjI)
  qed
  moreover have "''word'' \<notin> set (adj ?g ''ward'')"
    using edge[of "''word''" "''ward''"] no by blast
  moreover have "build_word_graph ''Challenge'' ?D ?bw ?rl \<noteq> Inl ValueError"
    using b by simp
  ultimately show ?thesis using b by blast
qed


text \<open>
  C3. The graph that is built need not be symmetric. For the default Challenge dictionary,
  with five of its words banned and the letters \<open>o\<close>, \<open>x\<close> and \<open>z\<close> banned, \<open>worm \<rightarrow> warm\<close> is
  an entry and \<open>warm \<rightarrow> worm\<close> is not: only the letter written into the new word is tested.
\<close>

theorem build_not_symmetric_counterexample:
  "\<exists>g. build_word_graph ''Challenge''
      [''word'', ''ward'', ''warm'', ''worm'', ''worn'', ''corn'', ''coin'', ''cold'', ''bold'', ''hold'']
      {''corn'', ''coin'', ''cold'', ''bold'', ''hold''} {CHR ''o'', CHR ''x'', CHR ''z''} = Inr g
       \<and> ''warm'' \<in> set (adj g ''worm'') \<and> ''worm'' \<notin> set (adj g ''warm'')"
proof -
  have "build_word_graph ''Challenge''
      [''word'', ''ward'', ''warm'', ''worm'', ''worn'', ''corn'', ''coin'', ''cold'', ''bold'', ''hold'']
      {''corn'', ''coin'', ''cold'', ''bold'', ''hold''} {CHR ''o'', CHR ''x'', CHR ''z''}
      = Inr [(''word'', [''ward'', ''worm'', ''worn'']), (''ward'', [''warm'']), (''warm'', [''ward'']),
              (''worm'', [''warm'', ''word'', ''worn'']), (''worn'', [''word'', ''worm''])]"
    by code_simp
  moreover have "''warm'' \<in> set (adj [(''word'', [''ward'', ''worm'', ''worn'']), (''ward'', [''warm'']), (''warm'', [''ward'']),
              (''worm'', [''warm'', ''word'', ''worn'']), (''worn'', [''word'', ''worm''])] ''worm'')"
    by (simp add: adj_def)
  moreover have "''worm'' \<notin> set (adj [(''word'', [''ward'', ''worm'', ''worn'']), (''ward'', [''warm'']), (''warm'', [''ward'']),
              (''worm'', [''warm'', ''word'', ''worn'']), (''worn'', [''word'', ''worm''])] ''warm'')"
    by (simp add: adj_def)
  ultimately show ?thesis by blast
qed

text \<open>
  C3, as the code has it. Whenever a graph is built: for words \<open>u\<close> and \<open>v\<close> that differ only
  at position \<open>i\<close>, if \<open>u \<rightarrow> v\<close> is an entry then \<open>v \<rightarrow> u\<close> is an entry exactly when the letter of
  \<open>u\<close> at \<open>i\<close> is a usable letter (one of the twenty-six lowercase letters and, in Challenge
  mode, not banned); for every two words whose letters at a position where they alone
  differ are usable on both sides, \<open>u \<rightarrow> v\<close> is an entry exactly when \<open>v \<rightarrow> u\<close> is; and the whole
  graph is symmetric when the dictionary words are lowercase and no letter is banned (the
  mode is not Challenge, or the set of banned letters is empty).
\<close>

theorem build_word_graph_symmetry:
  "\<forall>g. build_word_graph game_mode dictionary banned_words restricted_letters = Inr g \<longrightarrow>
     (\<forall>u v i. differ_only_at u v i \<and> v \<in> set (adj g u) \<longrightarrow>
         (u \<in> set (adj g v)) = usable_letter game_mode restricted_letters (u ! i))
     \<and> (\<forall>u v. (\<forall>i. differ_only_at u v i \<longrightarrow>
                   usable_letter game_mode restricted_letters (u ! i)
                   \<and> usable_letter game_mode restricted_letters (v ! i))
           \<longrightarrow> (v \<in> set (adj g u)) = (u \<in> set (adj g v)))
     \<and> ((\<forall>w \<in> set dictionary. set w \<subseteq> set alphabet)
          \<and> (game_mode = ''Challenge'' \<longrightarrow> restricted_letters = {})
          \<longrightarrow> (\<forall>u v. (v \<in> set (adj g u)) = (u \<in> set (adj g v))))"
proof (intro allI impI)
  fix g
  assume b: "build_word_graph game_mode dictionary banned_words restricted_letters = Inr g"
  note edge = build_word_graph_edge[OF b]
  let ?E = "effective_words (game_mode = ''Challenge'') dictionary banned_words"
  let ?ok = "usable_letter game_mode restricted_letters"
  have one: "(u \<in> set (adj g v)) = ?ok (u ! i)"
    if "differ_only_at u v i" "v \<in> set (adj g u)" for u v i
  proof -
    from that(2) have uv: "u \<in> ?E" "v \<in> ?E" unfolding edge by simp_all
    from that(1) have d: "differ_only_at v u i" by (simp add: differ_only_at_sym)
    have "(\<exists>j. differ_only_at v u j \<and> ?ok (u ! j)) = ?ok (u ! i)"
      using d differ_only_at_unique by blast
    with uv show ?thesis unfolding edge by simp
  qed
  have two: "(v \<in> set (adj g u)) = (u \<in> set (adj g v))"
    if "\<forall>i. differ_only_at u v i \<longrightarrow> ?ok (u ! i) \<and> ?ok (v ! i)" for u v
    unfolding edge using that differ_only_at_sym by blast
  have three: "(v \<in> set (adj g u)) = (u \<in> set (adj g v))"
    if low: "\<forall>w \<in> set dictionary. set w \<subseteq> set alphabet"
      and nb: "game_mode = ''Challenge'' \<longrightarrow> restricted_letters = {}" for u v
  proof -
    have ok: "?ok (w ! i)" if "w \<in> ?E" "i < length w" for w i
    proof -
      from that(1) have "w \<in> set dictionary" using effective_words_subset by blast
      with low that(2) have "w ! i \<in> set alphabet" by (meson nth_mem subsetD)
      moreover have "letter_allowed (game_mode = ''Challenge'') restricted_letters (w ! i)"
        using nb by (auto simp: letter_allowed_def)
      ultimately show ?thesis by (simp add: usable_letter_def)
    qed
    have len: "i < length u \<and> i < length v" if "differ_only_at u v i" for i
      using that by (auto simp: differ_only_at_def)
    show ?thesis unfolding edge using ok len differ_only_at_sym by blast
  qed
  from one two three show
    "(\<forall>u v i. differ_only_at u v i \<and> v \<in> set (adj g u) \<longrightarrow>
         (u \<in> set (adj g v)) = ?ok (u ! i))
     \<and> (\<forall>u v. (\<forall>i. differ_only_at u v i \<longrightarrow> ?ok (u ! i) \<and> ?ok (v ! i))
           \<longrightarrow> (v \<in> set (adj g u)) = (u \<in> set (adj g v)))
     \<and> ((\<forall>w \<in> set dictionary. set w \<subseteq> set alphabet)
          \<and> (game_mode = ''Challenge'' \<longrightarrow> restricted_letters = {})
          \<longrightarrow> (\<forall>u v. (v \<in> set (adj g u)) = (u \<in> set (adj g v))))"
    by blast
qed

text \<open>
  In the same graph \<open>worm\<close> and \<open>worn\<close> differ only in their last letters \<open>m\<close> and \<open>n\<close>, both
  usable, and each is an entry of the other.
\<close>

theorem build_word_graph_symmetry_witness:
  "\<exists>g. build_word_graph ''Challenge''
      [''word'', ''ward'', ''warm'', ''worm'', ''worn'', ''corn'', ''coin'', ''cold'', ''bold'', ''hold'']
      {''corn'', ''coin'', ''cold'', ''bold'', ''hold''} {CHR ''o'', CHR ''x'', CHR ''z''} = Inr g
       \<and> ''worn'' \<in> set (adj g ''worm'') \<and> ''worm'' \<in> set (adj g ''worn'')"
proof -
  let ?g = "[(''word'', [''ward'', ''worm'', ''worn'']), (''ward'', [''warm'']), (''warm'', [''ward'']),
              (''worm'', [''warm'', ''word'', ''worn'']), (''worn'', [''word'', ''worm''])]"
  let ?rl = "{CHR ''o'', CHR ''x'', CHR ''z''}"
  have b: "build_word_graph ''Challenge''
      [''word'', ''ward'', ''warm'', ''worm'', ''worn'', ''corn'', ''coin'', ''cold'', ''bold'', ''hold'']
      {''corn'', ''coin'', ''cold'', ''bold'', ''hold''} {CHR ''o'', CHR ''x'', CHR ''z''}
      = Inr ?g"
    by code_simp
  have d: "differ_only_at ''worm'' ''worn'' 3"
    by (auto simp: differ_only_at_def less_Suc_eq numeral_eq_Suc)
  have e: "''worn'' \<in> set (adj ?g ''worm'')" by (simp add: adj_def)
  have ok: "usable_letter ''Challenge'' ?rl (''worm'' ! 3)"
    by (simp add: usable_letter_def letter_allowed_def alphabet_def numeral_eq_Suc)
  have "(''worm'' \<in> set (adj ?g ''worn'')) = usable_letter ''Challenge'' ?rl (''worm'' ! 3)"
    using d e
    by (intro build_word_graph_symmetry[THEN spec, THEN mp, OF b, THEN conjunct1,
          rule_format]) simp
  with ok e b show ?thesis by blast
qed

section \<open>The trivial query\<close>

text \<open>
  C6. When start and goal are the same word \<open>w\<close>, each of the three searches returns cost
  0 and the path \<open>[w]\<close>. The graph returned is the graph given: the first iteration returns
  before any adjacency list is read, so no key is inserted even when \<open>w\<close> is absent.
\<close>

theorem search_start_is_goal:
  "breadth_first_search g w w = (Some (0, [w]), g)
   \<and> uniform_cost_search g w w = (Some (0, [w]), g)
   \<and> a_star_search g w w = (Some (0, [w]), g)"
  by (simp add: breadth_first_search_def bfs_loop.simps bfs_step_def
      uniform_cost_search_def ucs_loop.simps ucs_step_def
      a_star_search_def astar_loop.simps astar_step_def heappop_def)

text \<open>
  C7. \<open>check_path_exists\<close> with equal start and target answers \<open>True\<close> for every graph and
  every word, whether or not the word is a key; the graph is not touched.
\<close>

theorem check_path_exists_same_word:
  "check_path_exists g w w = (True, g)"
  by (simp add: check_path_exists_def)

section \<open>Reasoning about the loops\<close>

text \<open>
  An invariant that every continuing iteration preserves holds when the loop returns;
  one rule per loop, by induction on the loop's own recursion.
\<close>

lemma bfs_loop_rule:
  assumes "I s"
    and "\<And>s s'. I s \<Longrightarrow> bfs_step goal s = Continue s' \<Longrightarrow> I s'"
    and "\<And>s r. I s \<Longrightarrow> bfs_step goal s = Return r \<Longrightarrow> P r"
  shows "P (bfs_loop goal s)"
  using assms
proof (induction goal s rule: bfs_loop.induct)
  case (1 goal s)
  show ?case
  proof (cases "bfs_step goal s")
    case (Return r)
    then show ?thesis using "1.prems"(3)[OF "1.prems"(1)] by (simp add: bfs_loop.simps)
  next
    case (Continue s')
    have "P (bfs_loop goal s')"
      using Continue "1.prems" by (intro "1.IH") blast+
    then show ?thesis using Continue by (simp add: bfs_loop.simps)
  qed
qed

lemma bfs_loop_run: "\<exists>n. run (bfs_step goal) n s = Some (bfs_loop goal s)"
proof (induction goal s rule: bfs_loop.induct)
  case (1 goal s)
  show ?case
  proof (cases "bfs_step goal s")
    case (Return r)
    then have "run (bfs_step goal) (Suc 0) s = Some (bfs_loop goal s)"
      by (simp add: bfs_loop.simps)
    then show ?thesis by blast
  next
    case (Continue s')
    from "1.IH"[OF Continue] obtain n where "run (bfs_step goal) n s' = Some (bfs_loop goal s')"
      by blast
    then have "run (bfs_step goal) (Suc n) s = Some (bfs_loop goal s)" using Continue by (simp add: bfs_loop.simps)
    then show ?thesis by blast
  qed
qed

lemma ucs_loop_rule:
  assumes "I s"
    and "\<And>s s'. I s \<Longrightarrow> ucs_step goal s = Continue s' \<Longrightarrow> I s'"
    and "\<And>s r. I s \<Longrightarrow> ucs_step goal s = Return r \<Longrightarrow> P r"
  shows "P (ucs_loop goal s)"
  using assms
proof (induction goal s rule: ucs_loop.induct)
  case (1 goal s)
  show ?case
  proof (cases "ucs_step goal s")
    case (Return r)
    then show ?thesis using "1.prems"(3)[OF "1.prems"(1)] by (simp add: ucs_loop.simps)
  next
    case (Continue s')
    have "P (ucs_loop goal s')"
      using Continue "1.prems" by (intro "1.IH") blast+
    then show ?thesis using Continue by (simp add: ucs_loop.simps)
  qed
qed

lemma ucs_loop_run: "\<exists>n. run (ucs_step goal) n s = Some (ucs_loop goal s)"
proof (induction goal s rule: ucs_loop.induct)
  case (1 goal s)
  show ?case
  proof (cases "ucs_step goal s")
    case (Return r)
    then have "run (ucs_step goal) (Suc 0) s = Some (ucs_loop goal s)"
      by (simp add: ucs_loop.simps)
    then show ?thesis by blast
  next
    case (Continue s')
    from "1.IH"[OF Continue] obtain n where "run (ucs_step goal) n s' = Some (ucs_loop goal s')"
      by blast
    then have "run (ucs_step goal) (Suc n) s = Some (ucs_loop goal s)" using Continue by (simp add: ucs_loop.simps)
    then show ?thesis by blast
  qed
qed

lemma astar_loop_rule:
  assumes "I s"
    and "\<And>s s'. I s \<Longrightarrow> astar_step goal s = Continue s' \<Longrightarrow> I s'"
    and "\<And>s r. I s \<Longrightarrow> astar_step goal s = Return r \<Longrightarrow> P r"
  shows "P (astar_loop goal s)"
  using assms
proof (induction goal s rule: astar_loop.induct)
  case (1 goal s)
  show ?case
  proof (cases "astar_step goal s")
    case (Return r)
    then show ?thesis using "1.prems"(3)[OF "1.prems"(1)] by (simp add: astar_loop.simps)
  next
    case (Continue s')
    have "P (astar_loop goal s')"
      using Continue "1.prems" by (intro "1.IH") blast+
    then show ?thesis using Continue by (simp add: astar_loop.simps)
  qed
qed

lemma astar_loop_run: "\<exists>n. run (astar_step goal) n s = Some (astar_loop goal s)"
proof (induction goal s rule: astar_loop.induct)
  case (1 goal s)
  show ?case
  proof (cases "astar_step goal s")
    case (Return r)
    then have "run (astar_step goal) (Suc 0) s = Some (astar_loop goal s)"
      by (simp add: astar_loop.simps)
    then show ?thesis by blast
  next
    case (Continue s')
    from "1.IH"[OF Continue] obtain n where "run (astar_step goal) n s' = Some (astar_loop goal s')"
      by blast
    then have "run (astar_step goal) (Suc n) s = Some (astar_loop goal s)" using Continue by (simp add: astar_loop.simps)
    then show ?thesis by blast
  qed
qed

lemma cpe_loop_rule:
  assumes "I s"
    and "\<And>s s'. I s \<Longrightarrow> cpe_step target s = Continue s' \<Longrightarrow> I s'"
    and "\<And>s r. I s \<Longrightarrow> cpe_step target s = Return r \<Longrightarrow> P r"
  shows "P (cpe_loop target s)"
  using assms
proof (induction target s rule: cpe_loop.induct)
  case (1 target s)
  show ?case
  proof (cases "cpe_step target s")
    case (Return r)
    then show ?thesis using "1.prems"(3)[OF "1.prems"(1)] by (simp add: cpe_loop.simps)
  next
    case (Continue s')
    have "P (cpe_loop target s')"
      using Continue "1.prems" by (intro "1.IH") blast+
    then show ?thesis using Continue by (simp add: cpe_loop.simps)
  qed
qed

lemma cpe_loop_run: "\<exists>n. run (cpe_step target) n s = Some (cpe_loop target s)"
proof (induction target s rule: cpe_loop.induct)
  case (1 target s)
  show ?case
  proof (cases "cpe_step target s")
    case (Return r)
    then have "run (cpe_step target) (Suc 0) s = Some (cpe_loop target s)"
      by (simp add: cpe_loop.simps)
    then show ?thesis by blast
  next
    case (Continue s')
    from "1.IH"[OF Continue] obtain n where "run (cpe_step target) n s' = Some (cpe_loop target s')"
      by blast
    then have "run (cpe_step target) (Suc n) s = Some (cpe_loop target s)" using Continue by (simp add: cpe_loop.simps)
    then show ?thesis by blast
  qed
qed

section \<open>Paths\<close>

text \<open>
  A path from \<open>start\<close> to \<open>w\<close>: a non-empty list of words from \<open>start\<close> to \<open>w\<close> in which every
  word is followed by one of the words of its adjacency list.
\<close>

definition is_path :: "word_graph \<Rightarrow> string \<Rightarrow> string \<Rightarrow> string list \<Rightarrow> bool" where
  "is_path g start w p =
     (p \<noteq> [] \<and> hd p = start \<and> last p = w \<and> successively (\<lambda>u v. v \<in> set (adj g u)) p)"

lemma is_path_start: "is_path g start start [start]"
  by (simp add: is_path_def)

lemma is_path_extend:
  "is_path g start w p \<Longrightarrow> v \<in> set (adj g w) \<Longrightarrow> is_path g start v (p @ [v])"
  by (auto simp: is_path_def successively_append_iff)

lemma is_path_relpow:
  "is_path g start w p \<Longrightarrow> (start, w) \<in> edges g ^^ (length p - 1)"
proof (induction p arbitrary: w rule: rev_induct)
  case Nil
  then show ?case by (simp add: is_path_def)
next
  case (snoc x xs)
  show ?case
  proof (cases "xs = []")
    case True
    with snoc.prems show ?thesis by (auto simp: is_path_def)
  next
    case False
    from snoc.prems False have x: "x = w" and p: "is_path g start (last xs) xs"
      and e: "x \<in> set (adj g (last xs))"
      by (auto simp: is_path_def successively_append_iff)
    from snoc.IH[OF p] have "(start, last xs) \<in> edges g ^^ (length xs - 1)" .
    moreover have "(last xs, w) \<in> edges g" using e x by (simp add: edges_def)
    ultimately have "(start, w) \<in> edges g ^^ Suc (length xs - 1)" by auto
    with False show ?thesis by simp
  qed
qed

lemma is_path_reachable: "is_path g start w p \<Longrightarrow> (start, w) \<in> (edges g)\<^sup>*"
  using is_path_relpow relpow_imp_rtrancl by blast

lemma edges_cong: "adj g' = adj g \<Longrightarrow> edges g' = edges g"
  by (simp add: edges_def)

lemma is_path_cong: "adj g' = adj g \<Longrightarrow> is_path g' = is_path g"
  by (simp add: is_path_def fun_eq_iff)

section \<open>What a returned path is\<close>

definition sound_result :: "word_graph \<Rightarrow> string \<Rightarrow> string \<Rightarrow> search_result \<Rightarrow> bool" where
  "sound_result g start goal r =
     (case fst r of None \<Rightarrow> True
      | Some (cost, path) \<Rightarrow> is_path g start goal path \<and> int (length path) = cost + 1)"

definition bfs_paths :: "word_graph \<Rightarrow> string \<Rightarrow> bfs_state \<Rightarrow> bool" where
  "bfs_paths g0 start = (\<lambda>(g, queue, explored).
     adj g = adj g0 \<and> (\<forall>(w, p) \<in> set queue. is_path g0 start w p))"

definition ucs_paths :: "word_graph \<Rightarrow> string \<Rightarrow> ucs_state \<Rightarrow> bool" where
  "ucs_paths g0 start = (\<lambda>(g, frontier, explored).
     adj g = adj g0
     \<and> (\<forall>(c, w, p) \<in> set frontier. is_path g0 start w p \<and> int (length p) = c + 1))"

definition astar_paths :: "word_graph \<Rightarrow> string \<Rightarrow> string \<Rightarrow> astar_state \<Rightarrow> bool" where
  "astar_paths g0 start goal = (\<lambda>(g, frontier, explored).
     adj g = adj g0
     \<and> (\<forall>(f, c, w, p) \<in> set frontier.
           is_path g0 start w p \<and> int (length p) = c + 1 \<and> f = c + heuristic goal w))"

definition cpe_reach :: "word_graph \<Rightarrow> string \<Rightarrow> cpe_state \<Rightarrow> bool" where
  "cpe_reach g0 start = (\<lambda>(g, queue, visited).
     adj g = adj g0 \<and> (\<forall>w \<in> set queue. (start, w) \<in> (edges g0)\<^sup>*))"

text \<open>The cases of one iteration, spelled out for the proofs below.\<close>

lemma bfs_step_cases:
  assumes "bfs_step goal (g, queue, explored) = out"
  obtains
    (empty) "queue = []" "out = Return (None, g)"
  | (found) path rest where "queue = (goal, path) # rest"
      "out = Return (Some (int (length path) - 1, path), g)"
  | (expand) current path rest g' new where "queue = (current, path) # rest" "current \<noteq> goal"
      "getitem g current = (adj g current, g')" "adj g' = adj g"
      "distinct new" "set new = set (adj g current) - explored"
      "out = Continue (g', rest @ map (\<lambda>v. (v, path @ [v])) new,
                        explored \<union> set (adj g current))"
proof (cases queue)
  case Nil
  with assms have "out = Return (None, g)" by (simp add: bfs_step_def)
  with Nil show ?thesis by (rule empty)
next
  case (Cons a rest)
  obtain current path where a: "a = (current, path)" by (cases a) auto
  show ?thesis
  proof (cases "current = goal")
    case True
    with assms Cons a have "out = Return (Some (int (length path) - 1, path), g)"
      by (simp add: bfs_step_def)
    with Cons a True show ?thesis by (intro found) auto
  next
    case False
    obtain ns g' where gi: "getitem g current = (ns, g')" by (cases "getitem g current") auto
    have ns: "ns = adj g current" using gi by (rule adj_getitem)
    have a': "adj g' = adj g" using gi by (rule adj_after_getitem)
    from fold_bfs_visit[of path ns rest explored] obtain new where
      f: "fold (bfs_visit path) ns (rest, explored) =
           (rest @ map (\<lambda>v. (v, path @ [v])) new, explored \<union> set ns)"
      and n: "distinct new" "set new = set ns - explored" by blast
    from assms Cons a False gi f have
      "out = Continue (g', rest @ map (\<lambda>v. (v, path @ [v])) new, explored \<union> set ns)"
      by (simp add: bfs_step_def)
    with Cons a False gi ns a' n show ?thesis by (intro expand) auto
  qed
qed


lemma ucs_step_cases:
  assumes "ucs_step goal (g, frontier, explored) = out"
  obtains
    (empty) "frontier = []" "out = Return (None, g)"
  | (found) cost path frontier1 where "frontier \<noteq> []"
      "heappop frontier = ((cost, goal, path), frontier1)"
      "out = Return (Some (cost, path), g)"
  | (skip) cost current path frontier1 where "frontier \<noteq> []"
      "heappop frontier = ((cost, current, path), frontier1)"
      "current \<noteq> goal" "current \<in> explored"
      "out = Continue (g, frontier1, explored)"
  | (expand) cost current path frontier1 g' where "frontier \<noteq> []"
      "heappop frontier = ((cost, current, path), frontier1)"
      "current \<noteq> goal" "current \<notin> explored"
      "getitem g current = (adj g current, g')" "adj g' = adj g"
      "out = Continue (g', fold (ucs_visit (insert current explored) cost path)
                              (adj g current) frontier1,
                       insert current explored)"
proof (cases "frontier = []")
  case True
  with assms have "out = Return (None, g)" by (simp add: ucs_step_def)
  with True show ?thesis by (rule empty)
next
  case ne: False
  obtain cost current path frontier1 where
    pop: "heappop frontier = ((cost, current, path), frontier1)"
    by (cases "heappop frontier") auto
  show ?thesis
  proof (cases "current = goal")
    case True
    with assms ne pop have "out = Return (Some (cost, path), g)" by (simp add: ucs_step_def)
    with ne pop True show ?thesis by (intro found) auto
  next
    case False
    show ?thesis
    proof (cases "current \<in> explored")
      case True
      with assms ne pop False have "out = Continue (g, frontier1, explored)"
        by (simp add: ucs_step_def)
      with ne pop False True show ?thesis by (intro skip) auto
    next
      case nex: False
      obtain ns g' where gi: "getitem g current = (ns, g')"
        by (cases "getitem g current") auto
      have ns: "ns = adj g current" using gi by (rule adj_getitem)
      have a': "adj g' = adj g" using gi by (rule adj_after_getitem)
      from assms ne pop False nex gi have
        "out = Continue (g', fold (ucs_visit (insert current explored) cost path) ns frontier1,
                         insert current explored)"
        by (simp add: ucs_step_def)
      with ne pop False nex gi ns a' show ?thesis by (intro expand) auto
    qed
  qed
qed

lemma astar_step_cases:
  assumes "astar_step goal (g, frontier, explored) = out"
  obtains
    (empty) "frontier = []" "out = Return (None, g)"
  | (found) priority cost path frontier1 where "frontier \<noteq> []"
      "heappop frontier = ((priority, cost, goal, path), frontier1)"
      "out = Return (Some (cost, path), g)"
  | (skip) priority cost current path frontier1 where "frontier \<noteq> []"
      "heappop frontier = ((priority, cost, current, path), frontier1)"
      "current \<noteq> goal" "current \<in> explored"
      "out = Continue (g, frontier1, explored)"
  | (expand) priority cost current path frontier1 g' where "frontier \<noteq> []"
      "heappop frontier = ((priority, cost, current, path), frontier1)"
      "current \<noteq> goal" "current \<notin> explored"
      "getitem g current = (adj g current, g')" "adj g' = adj g"
      "out = Continue (g', fold (astar_visit goal (insert current explored) cost path)
                              (adj g current) frontier1,
                       insert current explored)"
proof (cases "frontier = []")
  case True
  with assms have "out = Return (None, g)" by (simp add: astar_step_def)
  with True show ?thesis by (rule empty)
next
  case ne: False
  obtain priority cost current path frontier1 where
    pop: "heappop frontier = ((priority, cost, current, path), frontier1)"
    by (cases "heappop frontier") auto
  show ?thesis
  proof (cases "current = goal")
    case True
    with assms ne pop have "out = Return (Some (cost, path), g)" by (simp add: astar_step_def)
    with ne pop True show ?thesis by (intro found) auto
  next
    case False
    show ?thesis
    proof (cases "current \<in> explored")
      case True
      with assms ne pop False have "out = Continue (g, frontier1, explored)"
        by (simp add: astar_step_def)
      with ne pop False True show ?thesis by (intro skip) auto
    next
      case nex: False
      obtain ns g' where gi: "getitem g current = (ns, g')"
        by (cases "getitem g current") auto
      have ns: "ns = adj g current" using gi by (rule adj_getitem)
      have a': "adj g' = adj g" using gi by (rule adj_after_getitem)
      from assms ne pop False nex gi have
        "out = Continue (g', fold (astar_visit goal (insert current explored) cost path) ns
                               frontier1,
                         insert current explored)"
        by (simp add: astar_step_def)
      with ne pop False nex gi ns a' show ?thesis by (intro expand) auto
    qed
  qed
qed

lemma cpe_step_cases:
  assumes "cpe_step target (g, queue, visited) = out"
  obtains
    (empty) "queue = []" "out = Return (False, g)"
  | (found) word rest g' where "queue = word # rest"
      "getitem g word = (adj g word, g')" "adj g' = adj g" "target \<in> set (adj g word)"
      "out = Return (True, g')"
  | (expand) word rest g' new where "queue = word # rest"
      "getitem g word = (adj g word, g')" "adj g' = adj g" "target \<notin> set (adj g word)"
      "distinct new" "set new = set (adj g word) - visited"
      "out = Continue (g', rest @ new, visited \<union> set (adj g word))"
proof (cases queue)
  case Nil
  with assms have "out = Return (False, g)" by (simp add: cpe_step_def)
  with Nil show ?thesis by (rule empty)
next
  case (Cons word rest)
  obtain ns g' where gi: "getitem g word = (ns, g')" by (cases "getitem g word") auto
  have ns: "ns = adj g word" using gi by (rule adj_getitem)
  have a': "adj g' = adj g" using gi by (rule adj_after_getitem)
  show ?thesis
  proof (cases "cpe_scan target ns rest visited")
    case (Return b)
    from cpe_scan_Return[OF Return] have b: "b" and t: "target \<in> set ns" by auto
    from assms Cons gi Return b have "out = Return (True, g')" by (simp add: cpe_step_def)
    with Cons gi ns a' t show ?thesis by (intro found) auto
  next
    case (Continue qv)
    obtain queue' visited' where qv: "qv = (queue', visited')" by (cases qv) auto
    from cpe_scan_Continue[OF Continue[unfolded qv]] obtain new where
      new: "queue' = rest @ new" "visited' = visited \<union> set ns" "set new = set ns - visited"
        "distinct new" "target \<notin> set ns" by blast
    from assms Cons gi Continue qv have "out = Continue (g', queue', visited')"
      by (simp add: cpe_step_def)
    with Cons gi ns a' new show ?thesis by (intro expand) auto
  qed
qed

section \<open>Soundness of the searches\<close>

lemma bfs_paths_step:
  assumes "bfs_paths g0 start s" "bfs_step goal s = Continue s'"
  shows "bfs_paths g0 start s'"
proof -
  obtain g queue explored where s: "s = (g, queue, explored)" by (cases s) auto
  from assms(1) s have a: "adj g = adj g0" and q: "\<forall>(w, p) \<in> set queue. is_path g0 start w p"
    by (auto simp: bfs_paths_def)
  from assms(2)[unfolded s] show ?thesis
  proof (cases rule: bfs_step_cases)
    case (expand current path rest g' new)
    have cp: "is_path g0 start current path" using q expand(1) by auto
    have "is_path g0 start v (path @ [v])" if "v \<in> set new" for v
      using that expand(6) a cp by (intro is_path_extend) auto
    moreover have "\<forall>(w, p) \<in> set rest. is_path g0 start w p" using q expand(1) by auto
    ultimately show ?thesis using expand(4,7) a by (auto simp: bfs_paths_def)
  qed simp_all
qed

lemma bfs_paths_return:
  assumes "bfs_paths g0 start s" "bfs_step goal s = Return r"
  shows "sound_result g0 start goal r"
proof -
  obtain g queue explored where s: "s = (g, queue, explored)" by (cases s) auto
  from assms(1) s have q: "\<forall>(w, p) \<in> set queue. is_path g0 start w p"
    by (auto simp: bfs_paths_def)
  from assms(2)[unfolded s] show ?thesis
  proof (cases rule: bfs_step_cases)
    case empty
    then show ?thesis by (simp add: sound_result_def)
  next
    case (found path rest)
    then show ?thesis using q by (auto simp: sound_result_def)
  qed simp_all
qed

lemma bfs_sound: "sound_result g start goal (breadth_first_search g start goal)"
  unfolding breadth_first_search_def
proof (rule bfs_loop_rule[where I = "bfs_paths g start"])
  show "bfs_paths g start (g, [(start, [start])], {start})"
    by (simp add: bfs_paths_def is_path_start)
qed (erule (1) bfs_paths_step bfs_paths_return)+

lemma ucs_paths_step:
  assumes "ucs_paths g0 start s" "ucs_step goal s = Continue s'"
  shows "ucs_paths g0 start s'"
proof -
  obtain g frontier explored where s: "s = (g, frontier, explored)" by (cases s) auto
  from assms(1) s have a: "adj g = adj g0"
    and q: "\<forall>(c, w, p) \<in> set frontier. is_path g0 start w p \<and> int (length p) = c + 1"
    by (auto simp: ucs_paths_def)
  from assms(2)[unfolded s] show ?thesis
  proof (cases rule: ucs_step_cases)
    case (skip cost current path frontier1)
    from heappop_facts(4)[OF skip(1,2)] q skip(5) a show ?thesis
      by (auto simp: ucs_paths_def)
  next
    case (expand cost current path frontier1 g')
    note hp = heappop_facts[OF expand(1,2)]
    have cp: "is_path g0 start current path" "int (length path) = cost + 1"
      using q hp(1) by auto
    have "is_path g0 start v (path @ [v])" if "v \<in> set (adj g current)" for v
      using that a cp by (intro is_path_extend) auto
    moreover have "\<forall>(c, w, p) \<in> set frontier1. is_path g0 start w p \<and> int (length p) = c + 1"
      using q hp(4) by auto
    ultimately show ?thesis using expand(6,7) a cp(2)
      by (auto simp: ucs_paths_def set_fold_ucs_visit)
  qed simp_all
qed

lemma ucs_paths_return:
  assumes "ucs_paths g0 start s" "ucs_step goal s = Return r"
  shows "sound_result g0 start goal r"
proof -
  obtain g frontier explored where s: "s = (g, frontier, explored)" by (cases s) auto
  from assms(1) s have
    q: "\<forall>(c, w, p) \<in> set frontier. is_path g0 start w p \<and> int (length p) = c + 1"
    by (auto simp: ucs_paths_def)
  from assms(2)[unfolded s] show ?thesis
  proof (cases rule: ucs_step_cases)
    case empty
    then show ?thesis by (simp add: sound_result_def)
  next
    case (found cost path frontier1)
    from heappop_facts(1)[OF found(1,2)] q found(3) show ?thesis
      by (auto simp: sound_result_def)
  qed simp_all
qed

lemma ucs_sound: "sound_result g start goal (uniform_cost_search g start goal)"
  unfolding uniform_cost_search_def
proof (rule ucs_loop_rule[where I = "ucs_paths g start"])
  show "ucs_paths g start (g, [(0, start, [start])], {})"
    by (simp add: ucs_paths_def is_path_start)
qed (erule (1) ucs_paths_step ucs_paths_return)+

lemma astar_paths_step:
  assumes "astar_paths g0 start goal s" "astar_step goal s = Continue s'"
  shows "astar_paths g0 start goal s'"
proof -
  obtain g frontier explored where s: "s = (g, frontier, explored)" by (cases s) auto
  from assms(1) s have a: "adj g = adj g0"
    and q: "\<forall>(f, c, w, p) \<in> set frontier.
              is_path g0 start w p \<and> int (length p) = c + 1 \<and> f = c + heuristic goal w"
    by (auto simp: astar_paths_def)
  from assms(2)[unfolded s] show ?thesis
  proof (cases rule: astar_step_cases)
    case (skip priority cost current path frontier1)
    from heappop_facts(4)[OF skip(1,2)] q skip(5) a show ?thesis
      by (auto simp: astar_paths_def)
  next
    case (expand priority cost current path frontier1 g')
    note hp = heappop_facts[OF expand(1,2)]
    have cp: "is_path g0 start current path" "int (length path) = cost + 1"
      using q hp(1) by auto
    have "is_path g0 start v (path @ [v])" if "v \<in> set (adj g current)" for v
      using that a cp by (intro is_path_extend) auto
    moreover have "\<forall>(f, c, w, p) \<in> set frontier1.
              is_path g0 start w p \<and> int (length p) = c + 1 \<and> f = c + heuristic goal w"
      using q hp(4) by auto
    ultimately show ?thesis using expand(6,7) a cp(2)
      by (auto simp: astar_paths_def set_fold_astar_visit)
  qed simp_all
qed

lemma astar_paths_return:
  assumes "astar_paths g0 start goal s" "astar_step goal s = Return r"
  shows "sound_result g0 start goal r"
proof -
  obtain g frontier explored where s: "s = (g, frontier, explored)" by (cases s) auto
  from assms(1) s have
    q: "\<forall>(f, c, w, p) \<in> set frontier.
              is_path g0 start w p \<and> int (length p) = c + 1 \<and> f = c + heuristic goal w"
    by (auto simp: astar_paths_def)
  from assms(2)[unfolded s] show ?thesis
  proof (cases rule: astar_step_cases)
    case empty
    then show ?thesis by (simp add: sound_result_def)
  next
    case (found priority cost path frontier1)
    from heappop_facts(1)[OF found(1,2)] q found(3) show ?thesis
      by (auto simp: sound_result_def)
  qed simp_all
qed

lemma astar_sound: "sound_result g start goal (a_star_search g start goal)"
  unfolding a_star_search_def
proof (rule astar_loop_rule[where I = "astar_paths g start goal"])
  show "astar_paths g start goal (g, [(heuristic goal start, 0, start, [start])], {})"
    by (simp add: astar_paths_def is_path_start)
qed (erule (1) astar_paths_step astar_paths_return)+

lemma cpe_reach_step:
  assumes "cpe_reach g0 start s" "cpe_step target s = Continue s'"
  shows "cpe_reach g0 start s'"
proof -
  obtain g queue visited where s: "s = (g, queue, visited)" by (cases s) auto
  from assms(1) s have a: "adj g = adj g0" and q: "\<forall>w \<in> set queue. (start, w) \<in> (edges g0)\<^sup>*"
    by (auto simp: cpe_reach_def)
  from assms(2)[unfolded s] show ?thesis
  proof (cases rule: cpe_step_cases)
    case (expand word rest g' new)
    have w: "(start, word) \<in> (edges g0)\<^sup>*" using q expand(1) by auto
    have "(start, v) \<in> (edges g0)\<^sup>*" if "v \<in> set new" for v
    proof -
      from that expand(6) a have "(word, v) \<in> edges g0" by (auto simp: edges_def)
      with w show ?thesis by (rule rtrancl_into_rtrancl)
    qed
    moreover have "\<forall>w \<in> set rest. (start, w) \<in> (edges g0)\<^sup>*" using q expand(1) by auto
    ultimately show ?thesis using expand(3,7) a by (auto simp: cpe_reach_def)
  qed simp_all
qed

lemma cpe_reach_return:
  assumes "cpe_reach g0 start s" "cpe_step target s = Return r"
  shows "fst r \<longrightarrow> (start, target) \<in> (edges g0)\<^sup>+"
proof -
  obtain g queue visited where s: "s = (g, queue, visited)" by (cases s) auto
  from assms(1) s have a: "adj g = adj g0" and q: "\<forall>w \<in> set queue. (start, w) \<in> (edges g0)\<^sup>*"
    by (auto simp: cpe_reach_def)
  from assms(2)[unfolded s] show ?thesis
  proof (cases rule: cpe_step_cases)
    case empty
    then show ?thesis by simp
  next
    case (found word rest g')
    have w: "(start, word) \<in> (edges g0)\<^sup>*" using q found(1) by auto
    from found(4) a have "(word, target) \<in> edges g0" by (auto simp: edges_def)
    with w have "(start, target) \<in> (edges g0)\<^sup>+" by (rule rtrancl_into_trancl1)
    then show ?thesis by simp
  qed simp_all
qed

lemma cpe_sound:
  "start \<noteq> target \<Longrightarrow> fst (check_path_exists g start target) \<Longrightarrow> (start, target) \<in> (edges g)\<^sup>+"
proof -
  assume ne: "start \<noteq> target" and t: "fst (check_path_exists g start target)"
  have "fst (cpe_loop target (g, [start], {start})) \<longrightarrow> (start, target) \<in> (edges g)\<^sup>+"
  proof (rule cpe_loop_rule[where I = "cpe_reach g start"])
    show "cpe_reach g start (g, [start], {start})" by (simp add: cpe_reach_def)
  qed (erule (1) cpe_reach_step cpe_reach_return)+
  with ne t show ?thesis by (simp add: check_path_exists_def)
qed

lemma sound_result_reachable:
  assumes "sound_result g start goal r" "start \<noteq> goal" "(start, goal) \<notin> (edges g)\<^sup>+"
  shows "fst r = None"
proof (cases "fst r")
  case None
  then show ?thesis .
next
  case (Some cp)
  obtain c p where cp: "cp = (c, p)" by (cases cp) auto
  from assms(1) Some cp have "is_path g start goal p" by (simp add: sound_result_def)
  then have "(start, goal) \<in> (edges g)\<^sup>*" by (rule is_path_reachable)
  with assms(2) have "(start, goal) \<in> (edges g)\<^sup>+" by (metis rtranclD)
  with assms(3) show ?thesis by contradiction
qed

text \<open>
  C8. When start and goal differ and the goal cannot be reached from start along the
  adjacency entries of the graph, breadth-first, uniform-cost and A* search return no
  path, and \<open>check_path_exists\<close> answers \<open>False\<close>.
\<close>

theorem unreachable_goal:
  assumes "start \<noteq> goal" "(start, goal) \<notin> (edges g)\<^sup>+"
  shows "fst (breadth_first_search g start goal) = None
         \<and> fst (uniform_cost_search g start goal) = None
         \<and> fst (a_star_search g start goal) = None
         \<and> \<not> fst (check_path_exists g start goal)"
  using assms bfs_sound ucs_sound astar_sound cpe_sound sound_result_reachable
  by blast

theorem unreachable_goal_witness:
  "fst (breadth_first_search (word_graph_of False [''cat'', ''dog''] {} {}) ''cat'' ''dog'') = None
   \<and> fst (uniform_cost_search (word_graph_of False [''cat'', ''dog''] {} {}) ''cat'' ''dog'') = None
   \<and> fst (a_star_search (word_graph_of False [''cat'', ''dog''] {} {}) ''cat'' ''dog'') = None
   \<and> \<not> fst (check_path_exists (word_graph_of False [''cat'', ''dog''] {} {}) ''cat'' ''dog'')"
proof -
  have g: "word_graph_of False [''cat'', ''dog''] {} {} = []" by code_simp
  have e: "edges [] = {}" by (simp add: edges_def adj_def)
  have "(''cat'', ''dog'') \<notin> (edges (word_graph_of False [''cat'', ''dog''] {} {}))\<^sup>+"
    unfolding g e by simp
  moreover have "''cat'' \<noteq> ''dog''" by simp
  ultimately show ?thesis by (rule unreachable_goal[rotated])
qed

section \<open>Termination\<close>

text \<open>
  C9. Each of the four loops stops: from its initial state, some finite number of
  iterations reaches the iteration that returns, with the result the method returns.
  (\<open>check_path_exists\<close> does not enter its loop when start and target are equal.) This
  holds for every graph; a graph is a finite dictionary.
\<close>

theorem searches_terminate:
  "(\<exists>n. run (bfs_step goal) n (g, [(start, [start])], {start})
           = Some (breadth_first_search g start goal))
   \<and> (\<exists>n. run (ucs_step goal) n (g, [(0, start, [start])], {})
           = Some (uniform_cost_search g start goal))
   \<and> (\<exists>n. run (astar_step goal) n (g, [(heuristic goal start, 0, start, [start])], {})
           = Some (a_star_search g start goal))
   \<and> (check_path_exists g start goal = (True, g)
        \<or> (\<exists>n. run (cpe_step goal) n (g, [start], {start})
                 = Some (check_path_exists g start goal)))"
  unfolding breadth_first_search_def uniform_cost_search_def a_star_search_def
    check_path_exists_def
  using bfs_loop_run ucs_loop_run astar_loop_run cpe_loop_run by simp

section \<open>What a search does to the graph\<close>

text \<open>
  A search changes the graph only by reading adjacency lists, and a read changes it only
  when the word is not a key. \<open>keys_added g allowed g'\<close>: the graph \<open>g'\<close> is \<open>g\<close> followed by
  new keys, each with an empty list, all taken from \<open>allowed\<close>.
\<close>

definition keys_added :: "word_graph \<Rightarrow> string set \<Rightarrow> word_graph \<Rightarrow> bool" where
  "keys_added g allowed g' =
     (\<exists>ws. g' = g @ map (\<lambda>w. (w, [])) ws \<and> distinct ws \<and> set ws \<inter> keys g = {}
           \<and> set ws \<subseteq> allowed)"




lemma keys_append_empty: "keys (g @ map (\<lambda>w. (w, [])) ws) = keys g \<union> set ws"
  unfolding keys_def by (simp add: image_Un image_image)



lemma keys_added_keys:
  assumes "keys_added g allowed g'"
  shows "keys g \<subseteq> keys g'" "keys g' \<subseteq> keys g \<union> allowed"
proof -
  from assms obtain ws where ws: "g' = g @ map (\<lambda>w. (w, [])) ws" "set ws \<subseteq> allowed"
    unfolding keys_added_def by blast
  show "keys g \<subseteq> keys g'" unfolding ws(1) keys_append_empty by simp
  show "keys g' \<subseteq> keys g \<union> allowed" unfolding ws(1) keys_append_empty using ws(2) by auto
qed
























section \<open>Queries with words of different lengths\<close>

lemma word_graph_of_trancl:
  assumes "(u, v) \<in> (edges (word_graph_of ch D bw rl))\<^sup>+"
  shows "length u = length v \<and> u \<in> effective_words ch D bw \<and> v \<in> effective_words ch D bw"
  using assms
proof (induction rule: trancl.induct)
  case (r_into_trancl a b)
  then have "b \<in> set (adj (word_graph_of ch D bw rl) a)" by (simp add: edges_def)
  then show ?case unfolding edge_word_graph_of by (auto simp: differ_only_at_def)
next
  case (trancl_into_trancl a b c)
  from trancl_into_trancl.hyps(2) have "c \<in> set (adj (word_graph_of ch D bw rl) b)"
    by (simp add: edges_def)
  then have "length b = length c \<and> c \<in> effective_words ch D bw"
    unfolding edge_word_graph_of by (auto simp: differ_only_at_def)
  with trancl_into_trancl.IH show ?case by simp
qed

text \<open>
  C5. No search signals an error for a query with words of different lengths: on the graph
  of \<open>{cat, bat}\<close>, the query from \<open>cat\<close> to \<open>cats\<close> gets the same answer as an unreachable
  goal.
\<close>

theorem length_mismatch_counterexample:
  "fst (breadth_first_search (word_graph_of False [''cat'', ''bat''] {} {}) ''cat'' ''cats'') = None
   \<and> fst (uniform_cost_search (word_graph_of False [''cat'', ''bat''] {} {}) ''cat'' ''cats'') = None
   \<and> fst (a_star_search (word_graph_of False [''cat'', ''bat''] {} {}) ''cat'' ''cats'') = None"
  by code_simp

text \<open>
  C5, as the code has it. On a built graph, a query whose start and goal have different
  lengths, or whose start and goal differ while one of them has a length that no word of
  the dictionary has, is answered with no path by each of the three searches.
\<close>

theorem length_mismatch_no_path:
  assumes "length start \<noteq> length goal
           \<or> (start \<noteq> goal
               \<and> ((\<forall>w \<in> set dictionary. length w \<noteq> length start)
                    \<or> (\<forall>w \<in> set dictionary. length w \<noteq> length goal)))"
  shows "fst (breadth_first_search
                (word_graph_of challenge dictionary banned_words restricted_letters)
                start goal) = None
         \<and> fst (uniform_cost_search
                (word_graph_of challenge dictionary banned_words restricted_letters)
                start goal) = None
         \<and> fst (a_star_search
                (word_graph_of challenge dictionary banned_words restricted_letters)
                start goal) = None"
proof -
  let ?g = "word_graph_of challenge dictionary banned_words restricted_letters"
  have ne: "start \<noteq> goal" using assms by auto
  have "(start, goal) \<notin> (edges ?g)\<^sup>+"
  proof
    assume "(start, goal) \<in> (edges ?g)\<^sup>+"
    from word_graph_of_trancl[OF this] have "length start = length goal"
      "start \<in> set dictionary" "goal \<in> set dictionary"
      using effective_words_subset by auto
    with assms show False by auto
  qed
  with ne show ?thesis
    using bfs_sound ucs_sound astar_sound sound_result_reachable by blast
qed

theorem length_mismatch_no_path_witness:
  "fst (breadth_first_search (word_graph_of True [''cat'', ''bat'', ''hat''] {''hat''} {CHR ''z''})
          ''cat'' ''boat'') = None
   \<and> fst (uniform_cost_search (word_graph_of True [''cat'', ''bat'', ''hat''] {''hat''} {CHR ''z''})
          ''cat'' ''boat'') = None
   \<and> fst (a_star_search (word_graph_of True [''cat'', ''bat'', ''hat''] {''hat''} {CHR ''z''})
          ''cat'' ''boat'') = None"
proof -
  have "length ''cat'' \<noteq> length ''boat''
        \<or> (''cat'' \<noteq> ''boat''
            \<and> ((\<forall>w \<in> set [''cat'', ''bat'', ''hat'']. length w \<noteq> length ''cat'')
                 \<or> (\<forall>w \<in> set [''cat'', ''bat'', ''hat'']. length w \<noteq> length ''boat'')))"
    by simp
  then show ?thesis by (rule length_mismatch_no_path)
qed

section \<open>Expansions in uniform-cost and A* search\<close>

text \<open>
  \<open>ucs_expands goal s\<close> and \<open>astar_expands goal s\<close> name the word whose adjacency list the
  iteration from state \<open>s\<close> reads: the word popped, when it is neither the goal nor explored.
\<close>

definition ucs_expands :: "string \<Rightarrow> ucs_state \<Rightarrow> string option" where
  "ucs_expands goal = (\<lambda>(g, frontier, explored).
     if frontier = [] then None
     else (case heappop frontier of ((cost, current, path), frontier1) \<Rightarrow>
             if current \<noteq> goal \<and> current \<notin> explored then Some current else None))"

definition astar_expands :: "string \<Rightarrow> astar_state \<Rightarrow> string option" where
  "astar_expands goal = (\<lambda>(g, frontier, explored).
     if frontier = [] then None
     else (case heappop frontier of ((priority, cost, current, path), frontier1) \<Rightarrow>
             if current \<noteq> goal \<and> current \<notin> explored then Some current else None))"

definition explored_of :: "word_graph \<times> 'a list \<times> string set \<Rightarrow> string set" where
  "explored_of = (\<lambda>(g, frontier, explored). explored)"

lemma state_after_add:
  "state_after step i s = Some s' \<Longrightarrow> state_after step (i + k) s = state_after step k s'"
proof (induction i arbitrary: s)
  case 0
  then show ?case by simp
next
  case (Suc i)
  then obtain s1 where s1: "step s = Continue s1" and r: "state_after step i s1 = Some s'"
    by (cases "step s") simp_all
  have "state_after step (Suc i + k) s = state_after step (i + k) s1" using s1 by simp
  with Suc.IH[OF r] show ?case by simp
qed

lemma state_after_Suc:
  "state_after step (Suc k) s = Some s' \<Longrightarrow>
     \<exists>s1. step s = Continue s1 \<and> state_after step k s1 = Some s'"
  by (cases "step s") simp_all

lemma ucs_step_explored:
  assumes "ucs_step goal s = Continue s'"
  shows "explored_of s \<subseteq> explored_of s'"
    and "ucs_expands goal s = Some w \<Longrightarrow> w \<in> explored_of s'"
proof -
  obtain g frontier explored where s: "s = (g, frontier, explored)" by (cases s) auto
  from assms[unfolded s] show "explored_of s \<subseteq> explored_of s'"
    by (cases rule: ucs_step_cases) (auto simp: s explored_of_def)
  assume "ucs_expands goal s = Some w"
  with assms[unfolded s] show "w \<in> explored_of s'"
    by (cases rule: ucs_step_cases)
       (auto simp: s explored_of_def ucs_expands_def split: if_splits)
qed

lemma ucs_explored_mono:
  "state_after (ucs_step goal) n s = Some s' \<Longrightarrow> explored_of s \<subseteq> explored_of s'"
proof (induction n arbitrary: s)
  case 0
  then show ?case by simp
next
  case (Suc n)
  from state_after_Suc[OF Suc.prems] obtain s1 where s1: "ucs_step goal s = Continue s1"
    and r: "state_after (ucs_step goal) n s1 = Some s'" by blast
  from ucs_step_explored(1)[OF s1] Suc.IH[OF r] show ?case by blast
qed

lemma ucs_expands_not_explored:
  assumes "ucs_expands goal s = Some w"
  shows "w \<notin> explored_of s"
proof -
  obtain g frontier explored where s: "s = (g, frontier, explored)" by (cases s) auto
  from assms s have ne: "frontier \<noteq> []" by (auto simp: ucs_expands_def split: if_splits)
  obtain cost current path frontier1 where
    pop: "heappop frontier = ((cost, current, path), frontier1)"
    by (cases "heappop frontier") auto
  from assms s ne pop have "w = current" "current \<notin> explored"
    by (simp_all add: ucs_expands_def split: if_splits)
  then show ?thesis by (simp add: s explored_of_def)
qed

lemma ucs_expands_once:
  assumes "state_after (ucs_step goal) i s0 = Some si"
    and "state_after (ucs_step goal) j s0 = Some sj" and "i < j"
    and "ucs_expands goal si = Some w" and "ucs_expands goal sj = Some w'"
  shows "w \<noteq> w'"
proof -
  from assms(3) obtain k where "j = Suc (i + k)" unfolding less_iff_Suc_add by blast
  then have j: "j = i + Suc k" by simp
  have e: "state_after (ucs_step goal) (i + Suc k) s0 = state_after (ucs_step goal) (Suc k) si"
    using assms(1) by (rule state_after_add)
  have "state_after (ucs_step goal) (Suc k) si = Some sj"
    using assms(2) unfolding j e .
  from state_after_Suc[OF this] obtain s1 where s1: "ucs_step goal si = Continue s1"
    and r: "state_after (ucs_step goal) k s1 = Some sj" by blast
  have "w \<in> explored_of s1" using s1 assms(4) by (rule ucs_step_explored(2))
  moreover have "explored_of s1 \<subseteq> explored_of sj" using r by (rule ucs_explored_mono)
  ultimately have "w \<in> explored_of sj" by blast
  moreover from assms(5) have "w' \<notin> explored_of sj"
    by (rule ucs_expands_not_explored)
  ultimately show ?thesis by blast
qed

lemma ucs_skip:
  assumes "frontier \<noteq> []" "heappop frontier = ((cost, current, path), frontier1)"
    "current \<noteq> goal" "current \<in> explored"
  shows "ucs_step goal (g, frontier, explored) = Continue (g, frontier1, explored)"
  using assms by (simp add: ucs_step_def)

lemma astar_step_explored:
  assumes "astar_step goal s = Continue s'"
  shows "explored_of s \<subseteq> explored_of s'"
    and "astar_expands goal s = Some w \<Longrightarrow> w \<in> explored_of s'"
proof -
  obtain g frontier explored where s: "s = (g, frontier, explored)" by (cases s) auto
  from assms[unfolded s] show "explored_of s \<subseteq> explored_of s'"
    by (cases rule: astar_step_cases) (auto simp: s explored_of_def)
  assume "astar_expands goal s = Some w"
  with assms[unfolded s] show "w \<in> explored_of s'"
    by (cases rule: astar_step_cases)
       (auto simp: s explored_of_def astar_expands_def split: if_splits)
qed

lemma astar_explored_mono:
  "state_after (astar_step goal) n s = Some s' \<Longrightarrow> explored_of s \<subseteq> explored_of s'"
proof (induction n arbitrary: s)
  case 0
  then show ?case by simp
next
  case (Suc n)
  from state_after_Suc[OF Suc.prems] obtain s1 where s1: "astar_step goal s = Continue s1"
    and r: "state_after (astar_step goal) n s1 = Some s'" by blast
  from astar_step_explored(1)[OF s1] Suc.IH[OF r] show ?case by blast
qed

lemma astar_expands_not_explored:
  assumes "astar_expands goal s = Some w"
  shows "w \<notin> explored_of s"
proof -
  obtain g frontier explored where s: "s = (g, frontier, explored)" by (cases s) auto
  from assms s have ne: "frontier \<noteq> []" by (auto simp: astar_expands_def split: if_splits)
  obtain priority cost current path frontier1 where
    pop: "heappop frontier = ((priority, cost, current, path), frontier1)"
    by (cases "heappop frontier") auto
  from assms s ne pop have "w = current" "current \<notin> explored"
    by (simp_all add: astar_expands_def split: if_splits)
  then show ?thesis by (simp add: s explored_of_def)
qed

lemma astar_expands_once:
  assumes "state_after (astar_step goal) i s0 = Some si"
    and "state_after (astar_step goal) j s0 = Some sj" and "i < j"
    and "astar_expands goal si = Some w" and "astar_expands goal sj = Some w'"
  shows "w \<noteq> w'"
proof -
  from assms(3) obtain k where "j = Suc (i + k)" unfolding less_iff_Suc_add by blast
  then have j: "j = i + Suc k" by simp
  have e: "state_after (astar_step goal) (i + Suc k) s0 = state_after (astar_step goal) (Suc k) si"
    using assms(1) by (rule state_after_add)
  have "state_after (astar_step goal) (Suc k) si = Some sj"
    using assms(2) unfolding j e .
  from state_after_Suc[OF this] obtain s1 where s1: "astar_step goal si = Continue s1"
    and r: "state_after (astar_step goal) k s1 = Some sj" by blast
  have "w \<in> explored_of s1" using s1 assms(4) by (rule astar_step_explored(2))
  moreover have "explored_of s1 \<subseteq> explored_of sj" using r by (rule astar_explored_mono)
  ultimately have "w \<in> explored_of sj" by blast
  moreover from assms(5) have "w' \<notin> explored_of sj"
    by (rule astar_expands_not_explored)
  ultimately show ?thesis by blast
qed

lemma astar_skip:
  assumes "frontier \<noteq> []" "heappop frontier = ((priority, cost, current, path), frontier1)"
    "current \<noteq> goal" "current \<in> explored"
  shows "astar_step goal (g, frontier, explored) = Continue (g, frontier1, explored)"
  using assms by (simp add: astar_step_def)


lemma ucs_expands_step:
  assumes "ucs_expands goal (g, frontier, explored) = Some w"
  shows "\<exists>frontier'. ucs_step goal (g, frontier, explored)
            = Continue (snd (getitem g w), frontier', insert w explored)"
proof -
  from assms have ne: "frontier \<noteq> []" by (auto simp: ucs_expands_def split: if_splits)
  obtain cost current path frontier1 where
    pop: "heappop frontier = ((cost, current, path), frontier1)"
    by (cases "heappop frontier") auto
  from assms ne pop have c: "w = current" "current \<noteq> goal" "current \<notin> explored"
    by (simp_all add: ucs_expands_def split: if_splits)
  obtain ns g' where gi: "getitem g current = (ns, g')" by (cases "getitem g current") auto
  from ne pop c gi have "ucs_step goal (g, frontier, explored)
      = Continue (snd (getitem g w),
          fold (ucs_visit (insert current explored) cost path) ns frontier1,
          insert w explored)"
    by (simp add: ucs_step_def)
  then show ?thesis by blast
qed

lemma astar_expands_step:
  assumes "astar_expands goal (g, frontier, explored) = Some w"
  shows "\<exists>frontier'. astar_step goal (g, frontier, explored)
            = Continue (snd (getitem g w), frontier', insert w explored)"
proof -
  from assms have ne: "frontier \<noteq> []" by (auto simp: astar_expands_def split: if_splits)
  obtain priority cost current path frontier1 where
    pop: "heappop frontier = ((priority, cost, current, path), frontier1)"
    by (cases "heappop frontier") auto
  from assms ne pop have c: "w = current" "current \<noteq> goal" "current \<notin> explored"
    by (simp_all add: astar_expands_def split: if_splits)
  obtain ns g' where gi: "getitem g current = (ns, g')" by (cases "getitem g current") auto
  from ne pop c gi have "astar_step goal (g, frontier, explored)
      = Continue (snd (getitem g w),
          fold (astar_visit goal (insert current explored) cost path) ns frontier1,
          insert w explored)"
    by (simp add: astar_step_def)
  then show ?thesis by blast
qed

text \<open>
  C10. In uniform-cost and A* search the explored set only grows from one iteration to a
  later one; an iteration that expands a word adds it to the explored set, and no later
  iteration expands it again; and an iteration that pops an explored word (other than the
  goal) only removes the item: the graph is not read, nothing is pushed, and the explored
  set stays as it is.
\<close>

theorem expanded_at_most_once:
  "(\<forall>n s s'. state_after (ucs_step goal) n s = Some s' \<longrightarrow> explored_of s \<subseteq> explored_of s')
   \<and> (\<forall>g frontier explored w. ucs_expands goal (g, frontier, explored) = Some w \<longrightarrow>
          w \<notin> explored
          \<and> (\<exists>frontier'. ucs_step goal (g, frontier, explored)
                 = Continue (snd (getitem g w), frontier', insert w explored)))
   \<and> (\<forall>i j s0 si sj w w'.
          state_after (ucs_step goal) i s0 = Some si \<and> state_after (ucs_step goal) j s0 = Some sj
          \<and> i < j \<and> ucs_expands goal si = Some w \<and> ucs_expands goal sj = Some w'
          \<longrightarrow> w \<noteq> w')
   \<and> (\<forall>g frontier explored cost current path frontier1.
          frontier \<noteq> [] \<and> heappop frontier = ((cost, current, path), frontier1)
          \<and> current \<noteq> goal \<and> current \<in> explored
          \<longrightarrow> ucs_step goal (g, frontier, explored) = Continue (g, frontier1, explored))
   \<and> (\<forall>n s s'. state_after (astar_step goal) n s = Some s' \<longrightarrow> explored_of s \<subseteq> explored_of s')
   \<and> (\<forall>g frontier explored w. astar_expands goal (g, frontier, explored) = Some w \<longrightarrow>
          w \<notin> explored
          \<and> (\<exists>frontier'. astar_step goal (g, frontier, explored)
                 = Continue (snd (getitem g w), frontier', insert w explored)))
   \<and> (\<forall>i j s0 si sj w w'.
          state_after (astar_step goal) i s0 = Some si
          \<and> state_after (astar_step goal) j s0 = Some sj
          \<and> i < j \<and> astar_expands goal si = Some w \<and> astar_expands goal sj = Some w'
          \<longrightarrow> w \<noteq> w')
   \<and> (\<forall>g frontier explored priority cost current path frontier1.
          frontier \<noteq> [] \<and> heappop frontier = ((priority, cost, current, path), frontier1)
          \<and> current \<noteq> goal \<and> current \<in> explored
          \<longrightarrow> astar_step goal (g, frontier, explored) = Continue (g, frontier1, explored))"
proof (intro conjI allI impI)
  fix n and s s' :: ucs_state
  assume "state_after (ucs_step goal) n s = Some s'"
  then show "explored_of s \<subseteq> explored_of s'" by (rule ucs_explored_mono)
next
  fix g and frontier :: "ucs_item list" and explored w
  assume e: "ucs_expands goal (g, frontier, explored) = Some w"
  from ucs_expands_not_explored[OF e] show "w \<notin> explored" by (simp add: explored_of_def)
  from e show "\<exists>frontier'. ucs_step goal (g, frontier, explored)
                 = Continue (snd (getitem g w), frontier', insert w explored)"
    by (rule ucs_expands_step)
next
  fix i j and s0 si sj :: ucs_state and w w'
  assume "state_after (ucs_step goal) i s0 = Some si \<and> state_after (ucs_step goal) j s0 = Some sj
          \<and> i < j \<and> ucs_expands goal si = Some w \<and> ucs_expands goal sj = Some w'"
  then show "w \<noteq> w'" using ucs_expands_once by blast
next
  fix g and frontier frontier1 :: "ucs_item list" and explored cost current path
  assume "frontier \<noteq> [] \<and> heappop frontier = ((cost, current, path), frontier1)
          \<and> current \<noteq> goal \<and> current \<in> explored"
  then show "ucs_step goal (g, frontier, explored) = Continue (g, frontier1, explored)"
    using ucs_skip by blast
next
  fix n and s s' :: astar_state
  assume "state_after (astar_step goal) n s = Some s'"
  then show "explored_of s \<subseteq> explored_of s'" by (rule astar_explored_mono)
next
  fix g and frontier :: "astar_item list" and explored w
  assume e: "astar_expands goal (g, frontier, explored) = Some w"
  from astar_expands_not_explored[OF e] show "w \<notin> explored" by (simp add: explored_of_def)
  from e show "\<exists>frontier'. astar_step goal (g, frontier, explored)
                 = Continue (snd (getitem g w), frontier', insert w explored)"
    by (rule astar_expands_step)
next
  fix i j and s0 si sj :: astar_state and w w'
  assume "state_after (astar_step goal) i s0 = Some si
          \<and> state_after (astar_step goal) j s0 = Some sj
          \<and> i < j \<and> astar_expands goal si = Some w \<and> astar_expands goal sj = Some w'"
  then show "w \<noteq> w'" using astar_expands_once by blast
next
  fix g and frontier frontier1 :: "astar_item list" and explored priority cost current path
  assume "frontier \<noteq> [] \<and> heappop frontier = ((priority, cost, current, path), frontier1)
          \<and> current \<noteq> goal \<and> current \<in> explored"
  then show "astar_step goal (g, frontier, explored) = Continue (g, frontier1, explored)"
    using astar_skip by blast
qed

text \<open>
  A run on the graph \<open>a \<rightarrow> b, c\<close> and \<open>b \<rightarrow> c\<close>, searching for an absent goal: after two
  iterations the word \<open>c\<close> holds two frontier entries at once; the third iteration
  expands it, and the fourth pops it again and skips it.
\<close>

theorem expanded_at_most_once_witness:
  "state_after (ucs_step ''z'') 2
     ([(''a'', [''b'', ''c'']), (''b'', [''c'']), (''c'', [])], [(0, ''a'', [''a''])], {})
     = Some ([(''a'', [''b'', ''c'']), (''b'', [''c'']), (''c'', [])],
             [(2, ''c'', [''a'', ''b'', ''c'']), (1, ''c'', [''a'', ''c''])], {''b'', ''a''})
   \<and> ucs_expands ''z''
       ([(''a'', [''b'', ''c'']), (''b'', [''c'']), (''c'', [])],
        [(2, ''c'', [''a'', ''b'', ''c'']), (1, ''c'', [''a'', ''c''])], {''b'', ''a''})
     = Some ''c''
   \<and> state_after (ucs_step ''z'') 3
     ([(''a'', [''b'', ''c'']), (''b'', [''c'']), (''c'', [])], [(0, ''a'', [''a''])], {})
     = Some ([(''a'', [''b'', ''c'']), (''b'', [''c'']), (''c'', [])],
             [(2, ''c'', [''a'', ''b'', ''c''])], {''c'', ''b'', ''a''})
   \<and> ucs_expands ''z''
       ([(''a'', [''b'', ''c'']), (''b'', [''c'']), (''c'', [])],
        [(2, ''c'', [''a'', ''b'', ''c''])], {''c'', ''b'', ''a''})
     = None
   \<and> ucs_step ''z''
       ([(''a'', [''b'', ''c'']), (''b'', [''c'']), (''c'', [])],
        [(2, ''c'', [''a'', ''b'', ''c''])], {''c'', ''b'', ''a''})
     = Continue ([(''a'', [''b'', ''c'']), (''b'', [''c'']), (''c'', [])], [],
                 {''c'', ''b'', ''a''})"
proof -
  let ?g = "[(''a'', [''b'', ''c'']), (''b'', [''c'']), (''c'', [])]"
  have r2: "state_after (ucs_step ''z'') 2 (?g, [(0, ''a'', [''a''])], {})
     = Some (?g, [(2, ''c'', [''a'', ''b'', ''c'']), (1, ''c'', [''a'', ''c''])], {''b'', ''a''})"
    by code_simp
  have e2: "ucs_expands ''z''
       (?g, [(2, ''c'', [''a'', ''b'', ''c'']), (1, ''c'', [''a'', ''c''])], {''b'', ''a''})
     = Some ''c''"
    by code_simp
  have r3: "state_after (ucs_step ''z'') 3 (?g, [(0, ''a'', [''a''])], {})
     = Some (?g, [(2, ''c'', [''a'', ''b'', ''c''])], {''c'', ''b'', ''a''})"
    by code_simp
  have e3: "ucs_expands ''z'' (?g, [(2, ''c'', [''a'', ''b'', ''c''])], {''c'', ''b'', ''a''})
     = None"
    by code_simp
  have pop: "[(2, ''c'', [''a'', ''b'', ''c''])] \<noteq> ([] :: ucs_item list)
     \<and> heappop [(2 :: int, ''c'', [''a'', ''b'', ''c''])] = ((2, ''c'', [''a'', ''b'', ''c'']), [])
     \<and> ''c'' \<noteq> ''z'' \<and> ''c'' \<in> {''c'', ''b'', ''a''}"
    by (simp add: heappop_def)
  have skip: "ucs_step ''z'' (?g, [(2, ''c'', [''a'', ''b'', ''c''])], {''c'', ''b'', ''a''})
     = Continue (?g, [], {''c'', ''b'', ''a''})"
    using pop
    by (rule expanded_at_most_once[of "''z''", THEN conjunct2, THEN conjunct2, THEN conjunct2,
          THEN conjunct1, rule_format])
  from r2 e2 r3 e3 skip show ?thesis by (intro conjI)
qed

section \<open>Shortest paths: breadth-first search\<close>

text \<open>
  The invariant of the breadth-first loop, in parts. A word is \<^emph>\<open>finished\<close> when it is explored
  and no longer in the queue: its adjacency list has been read.
  \<^item> \<open>bfs_entries\<close>: every queue entry is an explored word with a path from \<open>start\<close> to it, and
    \<open>start\<close> itself is only queued with the path \<open>[start]\<close>;
  \<^item> \<open>bfs_levels\<close>: path lengths do not decrease along the queue and differ by at most one;
  \<^item> \<open>bfs_closed\<close>: a neighbour \<open>v\<close> of a finished word that a walk of \<open>n\<close> steps reaches is
    explored, and while it is queued its path has at most \<open>n + 2\<close> words.
\<close>

definition bfs_entries ::
  "word_graph \<Rightarrow> string \<Rightarrow> (string \<times> string list) list \<Rightarrow> string set \<Rightarrow> bool" where
  "bfs_entries g0 start queue explored =
     (\<forall>(w, p) \<in> set queue. w \<in> explored \<and> is_path g0 start w p \<and> (w = start \<longrightarrow> p = [start]))"

definition bfs_levels :: "(string \<times> string list) list \<Rightarrow> bool" where
  "bfs_levels queue =
     (sorted (map (\<lambda>e. length (snd e)) queue)
      \<and> (\<forall>e \<in> set queue. \<forall>e' \<in> set queue. length (snd e') \<le> length (snd e) + 1))"

definition bfs_closed ::
  "word_graph \<Rightarrow> string \<Rightarrow> (string \<times> string list) list \<Rightarrow> string set \<Rightarrow> bool" where
  "bfs_closed g0 start queue explored =
     (\<forall>n u v. (start, u) \<in> edges g0 ^^ n \<and> u \<in> explored \<and> u \<notin> fst ` set queue
               \<and> v \<in> set (adj g0 u)
        \<longrightarrow> v \<in> explored \<and> (\<forall>p. (v, p) \<in> set queue \<longrightarrow> length p \<le> n + 2))"

definition bfs_inv :: "word_graph \<Rightarrow> string \<Rightarrow> string \<Rightarrow> bfs_state \<Rightarrow> bool" where
  "bfs_inv g0 start goal = (\<lambda>(g, queue, explored).
     adj g = adj g0 \<and> start \<in> explored
     \<and> (goal \<in> explored \<longrightarrow> goal \<in> fst ` set queue)
     \<and> distinct (map fst queue)
     \<and> bfs_entries g0 start queue explored
     \<and> bfs_levels queue
     \<and> bfs_closed g0 start queue explored)"

lemma bfs_front:
  assumes "bfs_entries g0 start queue explored" "bfs_closed g0 start queue explored"
    and "start \<in> explored"
    and "(start, z) \<in> edges g0 ^^ m" and "z \<notin> explored \<or> z \<in> fst ` set queue"
  shows "\<exists>e \<in> set queue. length (snd e) \<le> m + 1"
  using assms(4,5)
proof (induction m arbitrary: z)
  case 0
  then have "z = start" by simp
  with 0 assms(3) obtain p where p: "(start, p) \<in> set queue" by auto
  with assms(1) have "p = [start]" by (auto simp: bfs_entries_def)
  with p show ?case by force
next
  case (Suc m)
  from Suc.prems(1) obtain y where y: "(start, y) \<in> edges g0 ^^ m" and yz: "(y, z) \<in> edges g0"
    by auto
  show ?case
  proof (cases "y \<notin> explored \<or> y \<in> fst ` set queue")
    case True
    from Suc.IH[OF y True] show ?thesis by force
  next
    case False
    with y yz assms(2) have z: "z \<in> explored" "\<forall>p. (z, p) \<in> set queue \<longrightarrow> length p \<le> m + 2"
      unfolding bfs_closed_def edges_def by blast+
    from z(1) Suc.prems(2) obtain p where "(z, p) \<in> set queue" by auto
    with z(2) show ?thesis by force
  qed
qed

lemma bfs_head_least:
  assumes "bfs_levels ((x, p) # rest)" "e \<in> set ((x, p) # rest)"
  shows "length p \<le> length (snd e)"
  using assms by (auto simp: bfs_levels_def)

lemma bfs_head_short:
  assumes "bfs_entries g0 start ((x, p) # rest) explored"
    "bfs_closed g0 start ((x, p) # rest) explored" "bfs_levels ((x, p) # rest)"
    and "start \<in> explored"
    and "(start, z) \<in> edges g0 ^^ m" and "z \<notin> explored \<or> z \<in> fst ` set ((x, p) # rest)"
  shows "length p \<le> m + 1"
proof -
  from bfs_front[OF assms(1,2,4,5,6)] obtain e where
    e: "e \<in> set ((x, p) # rest)" "length (snd e) \<le> m + 1" by blast
  from bfs_head_least[OF assms(3) e(1)] e(2) show ?thesis by simp
qed


text \<open>One expanding iteration: the queue loses its head and gains the new neighbours.\<close>

lemma bfs_expand_words:
  "fst ` set (rest @ map (\<lambda>v. (v, p @ [v])) new) = fst ` set rest \<union> set new"
  by (auto simp: image_Un image_image)

lemma bfs_expand_entries:
  assumes "bfs_entries g0 start ((x, p) # rest) explored" "start \<in> explored"
    and "set new = set (adj g0 x) - explored"
  shows "bfs_entries g0 start (rest @ map (\<lambda>v. (v, p @ [v])) new) (explored \<union> set (adj g0 x))"
proof -
  from assms(1) have xp: "is_path g0 start x p" by (simp add: bfs_entries_def)
  have old: "w \<in> explored \<union> set (adj g0 x) \<and> is_path g0 start w q \<and> (w = start \<longrightarrow> q = [start])"
    if "(w, q) \<in> set rest" for w q
    using assms(1) that by (auto simp: bfs_entries_def)
  have new: "v \<in> explored \<union> set (adj g0 x) \<and> is_path g0 start v (p @ [v])
             \<and> (v = start \<longrightarrow> p @ [v] = [start])"
    if "v \<in> set new" for v
  proof -
    from that assms(3) have v: "v \<in> set (adj g0 x)" "v \<notin> explored" by auto
    from xp v(1) have "is_path g0 start v (p @ [v])" by (rule is_path_extend)
    moreover from v(2) assms(2) have "v \<noteq> start" by auto
    ultimately show ?thesis using v(1) by simp
  qed
  show ?thesis unfolding bfs_entries_def using old new by auto
qed

lemma bfs_expand_distinct:
  assumes "bfs_entries g0 start ((x, p) # rest) explored" "distinct (map fst ((x, p) # rest))"
    and "distinct new" "set new = set (adj g0 x) - explored"
  shows "distinct (map fst (rest @ map (\<lambda>v. (v, p @ [v])) new))"
proof -
  have m: "map fst (rest @ map (\<lambda>v. (v, p @ [v])) new) = map fst rest @ new"
    by (simp add: comp_def)
  have "fst ` set rest \<subseteq> explored" using assms(1) by (auto simp: bfs_entries_def)
  then have "set (map fst rest) \<inter> set new = {}" using assms(4) by auto
  then show ?thesis unfolding m using assms(2,3) by simp
qed

lemma bfs_expand_levels:
  assumes "bfs_levels ((x, p) # rest)"
  shows "bfs_levels (rest @ map (\<lambda>v. (v, p @ [v])) new)"
proof -
  have lo: "length p \<le> length (snd e)" if "e \<in> set rest" for e
    using bfs_head_least[OF assms, of e] that by simp
  have hi: "length (snd e) \<le> length p + 1" if "e \<in> set rest" for e
    using assms that by (auto simp: bfs_levels_def)
  have s: "sorted (map (\<lambda>e. length (snd e)) rest)" using assms by (simp add: bfs_levels_def)
  have n: "map (\<lambda>e. length (snd e)) (map (\<lambda>v. (v, p @ [v])) new)
             = replicate (length new) (length p + 1)"
    by (simp add: comp_def map_replicate_const)
  have "sorted (map (\<lambda>e. length (snd e)) (rest @ map (\<lambda>v. (v, p @ [v])) new))"
    unfolding map_append n using s hi by (auto simp: sorted_append)
  moreover have "length (snd e') \<le> length (snd e) + 1"
    if "e \<in> set (rest @ map (\<lambda>v. (v, p @ [v])) new)"
      "e' \<in> set (rest @ map (\<lambda>v. (v, p @ [v])) new)" for e e'
  proof -
    have nw: "length (snd d) = length p + 1" if "d \<in> set (map (\<lambda>v. (v, p @ [v])) new)" for d
      using that by auto
    from that(1) have "e \<in> set rest \<or> e \<in> set (map (\<lambda>v. (v, p @ [v])) new)" by simp
    then have "length p \<le> length (snd e)" using lo[of e] nw[of e] by linarith
    moreover from that(2) have "e' \<in> set rest \<or> e' \<in> set (map (\<lambda>v. (v, p @ [v])) new)"
      by simp
    then have "length (snd e') \<le> length p + 1" using hi[of e'] nw[of e'] by linarith
    ultimately show ?thesis by simp
  qed
  ultimately show ?thesis unfolding bfs_levels_def by blast
qed

lemma bfs_expand_goal:
  assumes "goal \<in> explored \<longrightarrow> goal \<in> fst ` set ((x, p) # rest)" "x \<noteq> goal"
    and "set new = set (adj g0 x) - explored"
  shows "goal \<in> explored \<union> set (adj g0 x)
         \<longrightarrow> goal \<in> fst ` set (rest @ map (\<lambda>v. (v, p @ [v])) new)"
  unfolding bfs_expand_words using assms by auto

lemma bfs_expand_closed:
  assumes en: "bfs_entries g0 start ((x, p) # rest) explored"
    and cl: "bfs_closed g0 start ((x, p) # rest) explored"
    and lv: "bfs_levels ((x, p) # rest)"
    and st: "start \<in> explored"
    and new: "set new = set (adj g0 x) - explored"
  shows "bfs_closed g0 start (rest @ map (\<lambda>v. (v, p @ [v])) new) (explored \<union> set (adj g0 x))"
  unfolding bfs_closed_def
proof (intro allI impI, elim conjE)
  fix n u v
  assume w: "(start, u) \<in> edges g0 ^^ n"
    and u: "u \<in> explored \<union> set (adj g0 x)"
    and uq: "u \<notin> fst ` set (rest @ map (\<lambda>v. (v, p @ [v])) new)"
    and v: "v \<in> set (adj g0 u)"
  from uq have ur: "u \<notin> fst ` set rest" and un: "u \<notin> set new"
    unfolding bfs_expand_words by auto
  from u un new have ue: "u \<in> explored" by auto
  have hi: "length q \<le> length p + 1" if "(w, q) \<in> set rest" for w q
    using lv that by (force simp: bfs_levels_def)
  show "v \<in> explored \<union> set (adj g0 x)
        \<and> (\<forall>q. (v, q) \<in> set (rest @ map (\<lambda>v. (v, p @ [v])) new) \<longrightarrow> length q \<le> n + 2)"
  proof (cases "u = x")
    case True
    have "length p \<le> n + 1"
      using bfs_head_short[OF en cl lv st w] True by simp
    moreover have "length q \<le> length p + 1"
      if "(v, q) \<in> set (rest @ map (\<lambda>v. (v, p @ [v])) new)" for q
      using that hi by auto
    ultimately show ?thesis using v True by fastforce
  next
    case False
    with ur have "u \<notin> fst ` set ((x, p) # rest)" by simp
    with cl w ue v have ve: "v \<in> explored"
      and b: "\<forall>q. (v, q) \<in> set ((x, p) # rest) \<longrightarrow> length q \<le> n + 2"
      unfolding bfs_closed_def by blast+
    have "length q \<le> n + 2" if "(v, q) \<in> set (rest @ map (\<lambda>v. (v, p @ [v])) new)" for q
    proof -
      from ve new have "v \<notin> set new" by auto
      with that have "(v, q) \<in> set rest" by auto
      with b show ?thesis by simp
    qed
    with ve show ?thesis by simp
  qed
qed

lemma bfs_inv_step:
  assumes "bfs_inv g0 start goal s" "bfs_step goal s = Continue s'"
  shows "bfs_inv g0 start goal s'"
proof -
  obtain g queue explored where s: "s = (g, queue, explored)" by (cases s) auto
  from assms(1) s have a: "adj g = adj g0" and st: "start \<in> explored"
    and gl: "goal \<in> explored \<longrightarrow> goal \<in> fst ` set queue"
    and di: "distinct (map fst queue)"
    and en: "bfs_entries g0 start queue explored"
    and lv: "bfs_levels queue"
    and cl: "bfs_closed g0 start queue explored"
    by (simp_all add: bfs_inv_def)
  from assms(2)[unfolded s] show ?thesis
  proof (cases rule: bfs_step_cases)
    case (expand x p rest g' new)
    have new: "set new = set (adj g0 x) - explored" using expand(6) a by simp
    note q = expand(1)
    let ?q = "rest @ map (\<lambda>v. (v, p @ [v])) new"
    let ?e = "explored \<union> set (adj g0 x)"
    have "adj g' = adj g0" using expand(4) a by simp
    moreover have "start \<in> ?e" using st by simp
    moreover have "goal \<in> ?e \<longrightarrow> goal \<in> fst ` set ?q"
      using gl[unfolded q] expand(2) new by (rule bfs_expand_goal)
    moreover have "distinct (map fst ?q)"
      using en[unfolded q] di[unfolded q] expand(5) new by (rule bfs_expand_distinct)
    moreover have "bfs_entries g0 start ?q ?e"
      using en[unfolded q] st new by (rule bfs_expand_entries)
    moreover have "bfs_levels ?q" using lv[unfolded q] by (rule bfs_expand_levels)
    moreover have "bfs_closed g0 start ?q ?e"
      using en[unfolded q] cl[unfolded q] lv[unfolded q] st new by (rule bfs_expand_closed)
    ultimately show ?thesis using expand(7) a by (simp add: bfs_inv_def)
  qed simp_all
qed


text \<open>
  What makes a result optimal: a returned cost is at most the number of steps of any walk
  from \<open>start\<close> to \<open>goal\<close>, and no path is returned only when there is no walk.
\<close>

definition optimal_result :: "word_graph \<Rightarrow> string \<Rightarrow> string \<Rightarrow> search_result \<Rightarrow> bool" where
  "optimal_result g start goal r =
     (case fst r of
        None \<Rightarrow> (start, goal) \<notin> (edges g)\<^sup>*
      | Some (cost, path) \<Rightarrow> (\<forall>n. (start, goal) \<in> edges g ^^ n \<longrightarrow> cost \<le> int n))"

lemma bfs_inv_return:
  assumes "bfs_inv g0 start goal s" "bfs_step goal s = Return r"
  shows "optimal_result g0 start goal r"
proof -
  obtain g queue explored where s: "s = (g, queue, explored)" by (cases s) auto
  from assms(1) s have st: "start \<in> explored"
    and gl: "goal \<in> explored \<longrightarrow> goal \<in> fst ` set queue"
    and en: "bfs_entries g0 start queue explored"
    and lv: "bfs_levels queue"
    and cl: "bfs_closed g0 start queue explored"
    by (simp_all add: bfs_inv_def)
  from assms(2)[unfolded s] show ?thesis
  proof (cases rule: bfs_step_cases)
    case empty
    have "(start, goal) \<notin> (edges g0)\<^sup>*"
    proof
      assume "(start, goal) \<in> (edges g0)\<^sup>*"
      then obtain n where n: "(start, goal) \<in> edges g0 ^^ n" using rtrancl_imp_relpow by blast
      from gl empty(1) have "goal \<notin> explored \<or> goal \<in> fst ` set queue" by auto
      from bfs_front[OF en cl st n this] empty(1) show False by simp
    qed
    with empty(2) show ?thesis by (simp add: optimal_result_def)
  next
    case (found path rest)
    have "int (length path) - 1 \<le> int n" if "(start, goal) \<in> edges g0 ^^ n" for n
    proof -
      have "length path \<le> n + 1"
        using bfs_head_short[OF en[unfolded found(1)] cl[unfolded found(1)] lv[unfolded found(1)]
            st that] by simp
      then show ?thesis by simp
    qed
    with found(2) show ?thesis by (simp add: optimal_result_def)
  qed simp_all
qed

lemma bfs_inv_init: "bfs_inv g start goal (g, [(start, [start])], {start})"
  by (simp add: bfs_inv_def bfs_entries_def bfs_levels_def bfs_closed_def is_path_start)

lemma bfs_optimal: "optimal_result g start goal (breadth_first_search g start goal)"
  unfolding breadth_first_search_def
  using bfs_inv_init
proof (rule bfs_loop_rule[where I = "bfs_inv g start goal"])
qed (erule (1) bfs_inv_step bfs_inv_return)+

section \<open>Shortest paths: A* search\<close>

text \<open>
  The heuristic is consistent on a graph when it drops by at most one along every
  adjacency entry. Under that condition the A* loop keeps, besides \<open>astar_paths\<close>:
  \<^item> the goal is never explored (the loop returns when it is popped);
  \<^item> while \<open>start\<close> is unexplored, its item with cost 0 is in the frontier;
  \<^item> \<open>astar_closed\<close>: an unexplored neighbour \<open>v\<close> of an explored word that a walk of \<open>n\<close>
    steps reaches has a frontier item of cost at most \<open>n + 1\<close>.
\<close>

definition consistent :: "word_graph \<Rightarrow> string \<Rightarrow> bool" where
  "consistent g goal =
     (\<forall>u v. v \<in> set (adj g u) \<longrightarrow> heuristic goal u \<le> heuristic goal v + 1)"

definition astar_closed ::
  "word_graph \<Rightarrow> string \<Rightarrow> astar_item list \<Rightarrow> string set \<Rightarrow> bool" where
  "astar_closed g0 start frontier explored =
     (\<forall>n u v. (start, u) \<in> edges g0 ^^ n \<and> u \<in> explored \<and> v \<in> set (adj g0 u)
               \<and> v \<notin> explored
        \<longrightarrow> (\<exists>f c p. (f, c, v, p) \<in> set frontier \<and> c \<le> int n + 1))"

definition astar_inv :: "word_graph \<Rightarrow> string \<Rightarrow> string \<Rightarrow> astar_state \<Rightarrow> bool" where
  "astar_inv g0 start goal = (\<lambda>(g, frontier, explored).
     astar_paths g0 start goal (g, frontier, explored)
     \<and> goal \<notin> explored
     \<and> (start \<notin> explored \<longrightarrow> (\<exists>f p. (f, 0, start, p) \<in> set frontier))
     \<and> astar_closed g0 start frontier explored)"

lemma astar_front:
  assumes pa: "astar_paths g0 start goal (g, frontier, explored)"
    and se: "start \<notin> explored \<longrightarrow> (\<exists>f p. (f, 0, start, p) \<in> set frontier)"
    and cl: "astar_closed g0 start frontier explored"
    and co: "consistent g0 goal"
    and "(start, z) \<in> edges g0 ^^ m" and "z \<notin> explored"
  shows "\<exists>e \<in> set frontier. fst e \<le> int m + heuristic goal z"
  using assms(5,6)
proof (induction m arbitrary: z)
  case 0
  then have z: "z = start" by simp
  with 0 se obtain f p where e: "(f, 0, start, p) \<in> set frontier" by auto
  with pa have "f = 0 + heuristic goal start" by (auto simp: astar_paths_def)
  with e z show ?case by force
next
  case (Suc m)
  from Suc.prems(1) obtain y where y: "(start, y) \<in> edges g0 ^^ m" and yz: "(y, z) \<in> edges g0"
    by auto
  from yz have zy: "z \<in> set (adj g0 y)" by (simp add: edges_def)
  show ?case
  proof (cases "y \<in> explored")
    case True
    with cl y zy Suc.prems(2) obtain f c p where
      e: "(f, c, z, p) \<in> set frontier" "c \<le> int m + 1"
      unfolding astar_closed_def by blast
    with pa have "f = c + heuristic goal z" by (auto simp: astar_paths_def)
    with e show ?thesis by force
  next
    case False
    from Suc.IH[OF y False] obtain e where
      e: "e \<in> set frontier" "fst e \<le> int m + heuristic goal y" by blast
    from co zy have "heuristic goal y \<le> heuristic goal z + 1" unfolding consistent_def by blast
    with e show ?thesis by force
  qed
qed

lemma prod_le_fst: "(a :: int, b :: 'b :: linorder) \<le> (a', b') \<Longrightarrow> a \<le> a'"
  by (auto simp: less_eq_prod_def)

lemma astar_pop_cost:
  assumes pa: "astar_paths g0 start goal (g, frontier, explored)"
    and se: "start \<notin> explored \<longrightarrow> (\<exists>f p. (f, 0, start, p) \<in> set frontier)"
    and cl: "astar_closed g0 start frontier explored"
    and co: "consistent g0 goal"
    and ne: "frontier \<noteq> []" and pop: "heappop frontier = ((f, c, x, p), frontier1)"
    and w: "(start, x) \<in> edges g0 ^^ m" and x: "x \<notin> explored"
  shows "c \<le> int m"
proof -
  note hp = heappop_facts[OF ne pop]
  from astar_front[OF pa se cl co w x] obtain e where
    e: "e \<in> set frontier" "fst e \<le> int m + heuristic goal x" by blast
  from hp(2) e(1) have "(f, c, x, p) \<le> e" by blast
  then have "f \<le> fst e" by (cases e) (auto dest: prod_le_fst)
  moreover from pa hp(1) have "f = c + heuristic goal x" by (auto simp: astar_paths_def)
  ultimately show ?thesis using e(2) by simp
qed


lemma astar_inv_step:
  assumes co: "consistent g0 goal"
    and inv: "astar_inv g0 start goal s" and step: "astar_step goal s = Continue s'"
  shows "astar_inv g0 start goal s'"
proof -
  obtain g frontier explored where s: "s = (g, frontier, explored)" by (cases s) auto
  from inv s have pa: "astar_paths g0 start goal (g, frontier, explored)"
    and gl: "goal \<notin> explored"
    and se: "start \<notin> explored \<longrightarrow> (\<exists>f p. (f, 0, start, p) \<in> set frontier)"
    and cl: "astar_closed g0 start frontier explored"
    by (simp_all add: astar_inv_def)
  from pa have a: "adj g = adj g0" by (simp add: astar_paths_def)
  have pa': "astar_paths g0 start goal s'"
    using pa step[unfolded s] by (rule astar_paths_step)
  from step[unfolded s] show ?thesis
  proof (cases rule: astar_step_cases)
    case (skip f c x p frontier1)
    note hp = heappop_facts[OF skip(1,2)]
    have keep: "e \<in> set frontier1" if "e \<in> set frontier" "fst (snd (snd e)) \<notin> explored" for e
      using that hp(5) skip(4) by auto
    have "start \<notin> explored \<longrightarrow> (\<exists>f p. (f, 0, start, p) \<in> set frontier1)"
    proof
      assume "start \<notin> explored"
      with se obtain f' p' where "(f', 0, start, p') \<in> set frontier" by blast
      with \<open>start \<notin> explored\<close> have "(f', 0, start, p') \<in> set frontier1"
        by (intro keep) simp_all
      then show "\<exists>f p. (f, 0, start, p) \<in> set frontier1" by blast
    qed
    moreover have "astar_closed g0 start frontier1 explored"
      unfolding astar_closed_def
    proof (intro allI impI, elim conjE)
      fix n u v
      assume "(start, u) \<in> edges g0 ^^ n" "u \<in> explored" "v \<in> set (adj g0 u)"
        and v: "v \<notin> explored"
      with cl obtain f' c' p' where e: "(f', c', v, p') \<in> set frontier" "c' \<le> int n + 1"
        unfolding astar_closed_def by blast
      from e(1) v have "(f', c', v, p') \<in> set frontier1" by (intro keep) simp_all
      with e(2) show "\<exists>f c p. (f, c, v, p) \<in> set frontier1 \<and> c \<le> int n + 1" by blast
    qed
    ultimately show ?thesis using pa' gl skip(5) by (simp add: astar_inv_def)
  next
    case (expand f c x p frontier1 g')
    note hp = heappop_facts[OF expand(1,2)]
    let ?ex = "insert x explored"
    let ?fr = "fold (astar_visit goal ?ex c p) (adj g x) frontier1"
    have fr: "set ?fr = set frontier1
               \<union> (\<lambda>v. (c + 1 + heuristic goal v, c + 1, v, p @ [v])) ` (set (adj g x) - ?ex)"
      by (rule set_fold_astar_visit)
    have keep: "e \<in> set ?fr" if "e \<in> set frontier" "fst (snd (snd e)) \<noteq> x" for e
      using that hp(5) fr by auto
    have "goal \<notin> ?ex" using gl expand(3) by simp
    moreover have "start \<notin> ?ex \<longrightarrow> (\<exists>f p. (f, 0, start, p) \<in> set ?fr)"
    proof
      assume n: "start \<notin> ?ex"
      with se obtain f' p' where "(f', 0, start, p') \<in> set frontier" by auto
      with n have "(f', 0, start, p') \<in> set ?fr" by (intro keep) auto
      then show "\<exists>f p. (f, 0, start, p) \<in> set ?fr" by blast
    qed
    moreover have "astar_closed g0 start ?fr ?ex"
      unfolding astar_closed_def
    proof (intro allI impI, elim conjE)
      fix n u v
      assume w: "(start, u) \<in> edges g0 ^^ n" and u: "u \<in> ?ex"
        and vu: "v \<in> set (adj g0 u)" and v: "v \<notin> ?ex"
      show "\<exists>f c p. (f, c, v, p) \<in> set ?fr \<and> c \<le> int n + 1"
      proof (cases "u = x")
        case True
        have "c \<le> int n"
          using astar_pop_cost[OF pa se cl co expand(1,2) _ expand(4)] w True by simp
        moreover have "(c + 1 + heuristic goal v, c + 1, v, p @ [v]) \<in> set ?fr"
          using vu v True a unfolding fr by auto
        ultimately show ?thesis by force
      next
        case False
        with u have "u \<in> explored" by simp
        moreover from v have "v \<notin> explored" by simp
        ultimately obtain f' c' p' where
          e: "(f', c', v, p') \<in> set frontier" "c' \<le> int n + 1"
          using cl w vu unfolding astar_closed_def by blast
        from e(1) v have "(f', c', v, p') \<in> set ?fr" by (intro keep) auto
        with e(2) show ?thesis by blast
      qed
    qed
    ultimately show ?thesis using pa' expand(7) by (simp add: astar_inv_def)
  qed simp_all
qed

lemma astar_inv_return:
  assumes co: "consistent g0 goal"
    and inv: "astar_inv g0 start goal s" and step: "astar_step goal s = Return r"
  shows "optimal_result g0 start goal r"
proof -
  obtain g frontier explored where s: "s = (g, frontier, explored)" by (cases s) auto
  from inv s have pa: "astar_paths g0 start goal (g, frontier, explored)"
    and gl: "goal \<notin> explored"
    and se: "start \<notin> explored \<longrightarrow> (\<exists>f p. (f, 0, start, p) \<in> set frontier)"
    and cl: "astar_closed g0 start frontier explored"
    by (simp_all add: astar_inv_def)
  from step[unfolded s] show ?thesis
  proof (cases rule: astar_step_cases)
    case empty
    have "(start, goal) \<notin> (edges g0)\<^sup>*"
    proof
      assume "(start, goal) \<in> (edges g0)\<^sup>*"
      then obtain n where n: "(start, goal) \<in> edges g0 ^^ n" using rtrancl_imp_relpow by blast
      from astar_front[OF pa se cl co n gl] empty(1) show False by simp
    qed
    with empty(2) show ?thesis by (simp add: optimal_result_def)
  next
    case (found f c p frontier1)
    have "c \<le> int n" if "(start, goal) \<in> edges g0 ^^ n" for n
      using astar_pop_cost[OF pa se cl co found(1,2) that gl] .
    with found(3) show ?thesis by (simp add: optimal_result_def)
  qed simp_all
qed

lemma astar_inv_init:
  "astar_inv g start goal (g, [(heuristic goal start, 0, start, [start])], {})"
  by (simp add: astar_inv_def astar_paths_def astar_closed_def is_path_start)

lemma astar_optimal:
  assumes "consistent g goal"
  shows "optimal_result g start goal (a_star_search g start goal)"
  unfolding a_star_search_def
  using astar_inv_init
proof (rule astar_loop_rule[where I = "astar_inv g start goal"])
qed (erule (1) astar_inv_step[OF assms] astar_inv_return[OF assms])+

section \<open>Shortest paths: uniform-cost search\<close>

text \<open>
  The uniform-cost loop keeps the same invariant as the A* loop, with the accumulated cost
  as the only key, and needs no condition on the graph.
\<close>

definition ucs_closed ::
  "word_graph \<Rightarrow> string \<Rightarrow> ucs_item list \<Rightarrow> string set \<Rightarrow> bool" where
  "ucs_closed g0 start frontier explored =
     (\<forall>n u v. (start, u) \<in> edges g0 ^^ n \<and> u \<in> explored \<and> v \<in> set (adj g0 u)
               \<and> v \<notin> explored
        \<longrightarrow> (\<exists>c p. (c, v, p) \<in> set frontier \<and> c \<le> int n + 1))"

definition ucs_inv :: "word_graph \<Rightarrow> string \<Rightarrow> string \<Rightarrow> ucs_state \<Rightarrow> bool" where
  "ucs_inv g0 start goal = (\<lambda>(g, frontier, explored).
     ucs_paths g0 start (g, frontier, explored)
     \<and> goal \<notin> explored
     \<and> (start \<notin> explored \<longrightarrow> (\<exists>p. (0, start, p) \<in> set frontier))
     \<and> ucs_closed g0 start frontier explored)"

lemma ucs_front:
  assumes pa: "ucs_paths g0 start (g, frontier, explored)"
    and se: "start \<notin> explored \<longrightarrow> (\<exists>p. (0, start, p) \<in> set frontier)"
    and cl: "ucs_closed g0 start frontier explored"
    and "(start, z) \<in> edges g0 ^^ m" and "z \<notin> explored"
  shows "\<exists>e \<in> set frontier. fst e \<le> int m"
  using assms(4,5)
proof (induction m arbitrary: z)
  case 0
  then have z: "z = start" by simp
  with 0 se obtain p where e: "(0, start, p) \<in> set frontier" by auto
  then show ?case by force
next
  case (Suc m)
  from Suc.prems(1) obtain y where y: "(start, y) \<in> edges g0 ^^ m" and yz: "(y, z) \<in> edges g0"
    by auto
  from yz have zy: "z \<in> set (adj g0 y)" by (simp add: edges_def)
  show ?case
  proof (cases "y \<in> explored")
    case True
    with cl y zy Suc.prems(2) obtain c p where
      e: "(c, z, p) \<in> set frontier" "c \<le> int m + 1"
      unfolding ucs_closed_def by blast
    then show ?thesis by force
  next
    case False
    from Suc.IH[OF y False] obtain e where
      e: "e \<in> set frontier" "fst e \<le> int m" by blast
    then show ?thesis by force
  qed
qed

lemma ucs_pop_cost:
  assumes pa: "ucs_paths g0 start (g, frontier, explored)"
    and se: "start \<notin> explored \<longrightarrow> (\<exists>p. (0, start, p) \<in> set frontier)"
    and cl: "ucs_closed g0 start frontier explored"
    and ne: "frontier \<noteq> []" and pop: "heappop frontier = ((c, x, p), frontier1)"
    and w: "(start, x) \<in> edges g0 ^^ m" and x: "x \<notin> explored"
  shows "c \<le> int m"
proof -
  note hp = heappop_facts[OF ne pop]
  from ucs_front[OF pa se cl w x] obtain e where
    e: "e \<in> set frontier" "fst e \<le> int m" by blast
  from hp(2) e(1) have "(c, x, p) \<le> e" by blast
  then have "c \<le> fst e" by (cases e) (auto dest: prod_le_fst)
  then show ?thesis using e(2) by simp
qed

lemma ucs_inv_step:
  assumes inv: "ucs_inv g0 start goal s" and step: "ucs_step goal s = Continue s'"
  shows "ucs_inv g0 start goal s'"
proof -
  obtain g frontier explored where s: "s = (g, frontier, explored)" by (cases s) auto
  from inv s have pa: "ucs_paths g0 start (g, frontier, explored)"
    and gl: "goal \<notin> explored"
    and se: "start \<notin> explored \<longrightarrow> (\<exists>p. (0, start, p) \<in> set frontier)"
    and cl: "ucs_closed g0 start frontier explored"
    by (simp_all add: ucs_inv_def)
  from pa have a: "adj g = adj g0" by (simp add: ucs_paths_def)
  have pa': "ucs_paths g0 start s'"
    using pa step[unfolded s] by (rule ucs_paths_step)
  from step[unfolded s] show ?thesis
  proof (cases rule: ucs_step_cases)
    case (skip c x p frontier1)
    note hp = heappop_facts[OF skip(1,2)]
    have keep: "e \<in> set frontier1" if "e \<in> set frontier" "fst (snd e) \<notin> explored" for e
      using that hp(5) skip(4) by auto
    have "start \<notin> explored \<longrightarrow> (\<exists>p. (0, start, p) \<in> set frontier1)"
    proof
      assume "start \<notin> explored"
      with se obtain p' where "(0, start, p') \<in> set frontier" by blast
      with \<open>start \<notin> explored\<close> have "(0, start, p') \<in> set frontier1"
        by (intro keep) simp_all
      then show "\<exists>p. (0, start, p) \<in> set frontier1" by blast
    qed
    moreover have "ucs_closed g0 start frontier1 explored"
      unfolding ucs_closed_def
    proof (intro allI impI, elim conjE)
      fix n u v
      assume "(start, u) \<in> edges g0 ^^ n" "u \<in> explored" "v \<in> set (adj g0 u)"
        and v: "v \<notin> explored"
      with cl obtain c' p' where e: "(c', v, p') \<in> set frontier" "c' \<le> int n + 1"
        unfolding ucs_closed_def by blast
      from e(1) v have "(c', v, p') \<in> set frontier1" by (intro keep) simp_all
      with e(2) show "\<exists>c p. (c, v, p) \<in> set frontier1 \<and> c \<le> int n + 1" by blast
    qed
    ultimately show ?thesis using pa' gl skip(5) by (simp add: ucs_inv_def)
  next
    case (expand c x p frontier1 g')
    note hp = heappop_facts[OF expand(1,2)]
    let ?ex = "insert x explored"
    let ?fr = "fold (ucs_visit ?ex c p) (adj g x) frontier1"
    have fr: "set ?fr = set frontier1
               \<union> (\<lambda>v. (c + 1, v, p @ [v])) ` (set (adj g x) - ?ex)"
      by (rule set_fold_ucs_visit)
    have keep: "e \<in> set ?fr" if "e \<in> set frontier" "fst (snd e) \<noteq> x" for e
      using that hp(5) fr by auto
    have "goal \<notin> ?ex" using gl expand(3) by simp
    moreover have "start \<notin> ?ex \<longrightarrow> (\<exists>p. (0, start, p) \<in> set ?fr)"
    proof
      assume n: "start \<notin> ?ex"
      with se obtain p' where "(0, start, p') \<in> set frontier" by auto
      with n have "(0, start, p') \<in> set ?fr" by (intro keep) auto
      then show "\<exists>p. (0, start, p) \<in> set ?fr" by blast
    qed
    moreover have "ucs_closed g0 start ?fr ?ex"
      unfolding ucs_closed_def
    proof (intro allI impI, elim conjE)
      fix n u v
      assume w: "(start, u) \<in> edges g0 ^^ n" and u: "u \<in> ?ex"
        and vu: "v \<in> set (adj g0 u)" and v: "v \<notin> ?ex"
      show "\<exists>c p. (c, v, p) \<in> set ?fr \<and> c \<le> int n + 1"
      proof (cases "u = x")
        case True
        have "c \<le> int n"
          using ucs_pop_cost[OF pa se cl expand(1,2) _ expand(4)] w True by simp
        moreover have "(c + 1, v, p @ [v]) \<in> set ?fr"
          using vu v True a unfolding fr by auto
        ultimately show ?thesis by force
      next
        case False
        with u have "u \<in> explored" by simp
        moreover from v have "v \<notin> explored" by simp
        ultimately obtain c' p' where
          e: "(c', v, p') \<in> set frontier" "c' \<le> int n + 1"
          using cl w vu unfolding ucs_closed_def by blast
        from e(1) v have "(c', v, p') \<in> set ?fr" by (intro keep) auto
        with e(2) show ?thesis by blast
      qed
    qed
    ultimately show ?thesis using pa' expand(7) by (simp add: ucs_inv_def)
  qed simp_all
qed

lemma ucs_inv_return:
  assumes inv: "ucs_inv g0 start goal s" and step: "ucs_step goal s = Return r"
  shows "optimal_result g0 start goal r"
proof -
  obtain g frontier explored where s: "s = (g, frontier, explored)" by (cases s) auto
  from inv s have pa: "ucs_paths g0 start (g, frontier, explored)"
    and gl: "goal \<notin> explored"
    and se: "start \<notin> explored \<longrightarrow> (\<exists>p. (0, start, p) \<in> set frontier)"
    and cl: "ucs_closed g0 start frontier explored"
    by (simp_all add: ucs_inv_def)
  from step[unfolded s] show ?thesis
  proof (cases rule: ucs_step_cases)
    case empty
    have "(start, goal) \<notin> (edges g0)\<^sup>*"
    proof
      assume "(start, goal) \<in> (edges g0)\<^sup>*"
      then obtain n where n: "(start, goal) \<in> edges g0 ^^ n" using rtrancl_imp_relpow by blast
      from ucs_front[OF pa se cl n gl] empty(1) show False by simp
    qed
    with empty(2) show ?thesis by (simp add: optimal_result_def)
  next
    case (found c p frontier1)
    have "c \<le> int n" if "(start, goal) \<in> edges g0 ^^ n" for n
      using ucs_pop_cost[OF pa se cl found(1,2) that gl] .
    with found(3) show ?thesis by (simp add: optimal_result_def)
  qed simp_all
qed

lemma ucs_inv_init:
  "ucs_inv g start goal (g, [(0, start, [start])], {})"
  by (simp add: ucs_inv_def ucs_paths_def ucs_closed_def is_path_start)

lemma ucs_optimal: "optimal_result g start goal (uniform_cost_search g start goal)"
  unfolding uniform_cost_search_def
  using ucs_inv_init
proof (rule ucs_loop_rule[where I = "ucs_inv g start goal"])
qed (erule (1) ucs_inv_step ucs_inv_return)+

section \<open>The three searches agree\<close>

text \<open>
  A graph in which every adjacency entry joins two words that differ in exactly one
  letter; every graph that is built is one.
\<close>

definition one_letter_graph :: "word_graph \<Rightarrow> bool" where
  "one_letter_graph g = (\<forall>u v. v \<in> set (adj g u) \<longrightarrow> (\<exists>i. differ_only_at u v i))"

lemma word_graph_of_one_letter: "one_letter_graph (word_graph_of ch D bw rl)"
  unfolding one_letter_graph_def edge_word_graph_of by blast

text \<open>Changing one letter of a word changes its heuristic value by at most one.\<close>

lemma length_filter_update:
  "length (filter P (xs[i := x])) \<le> Suc (length (filter P xs))"
proof (induction xs arbitrary: i)
  case Nil
  show ?case by simp
next
  case (Cons a xs)
  show ?case
  proof (cases i)
    case 0
    then show ?thesis by simp
  next
    case (Suc j)
    with Cons.IH[of j] show ?thesis by simp
  qed
qed

lemma heuristic_update: "heuristic goal (v[i := c]) \<le> heuristic goal v + 1"
proof -
  have "zip (v[i := c]) goal = zip (v[i := c]) (goal[i := goal ! i])" by simp
  also have "\<dots> = (zip v goal)[i := (c, goal ! i)]" by (rule zip_update)
  finally have "zip (v[i := c]) goal = (zip v goal)[i := (c, goal ! i)]" .
  then show ?thesis
    unfolding heuristic_def
    using length_filter_update[of "\<lambda>(a, b). a \<noteq> b" "zip v goal" i "(c, goal ! i)"] by simp
qed

lemma heuristic_differ:
  assumes "differ_only_at u v i"
  shows "heuristic goal u \<le> heuristic goal v + 1"
proof -
  from assms have "differ_only_at v u i" by (simp add: differ_only_at_sym)
  moreover from assms have "i < length v" by (simp add: differ_only_at_def)
  ultimately have "u = v[i := u ! i]" using differ_only_at_update[of i v u "u ! i"] by simp
  then show ?thesis using heuristic_update[of goal v i "u ! i"] by simp
qed

lemma one_letter_consistent: "one_letter_graph g \<Longrightarrow> consistent g goal"
  unfolding one_letter_graph_def consistent_def using heuristic_differ by blast

text \<open>
  \<open>ladder g start goal cost path\<close>: what is reported about a path. It has \<open>cost + 1\<close> words,
  begins at \<open>start\<close> and ends at \<open>goal\<close>; each word is followed by a word of its adjacency
  list, which differs from it in exactly one letter; every word but the last is a key of
  the graph, and every word but the first occurs in an adjacency list.
\<close>

definition ladder :: "word_graph \<Rightarrow> string \<Rightarrow> string \<Rightarrow> int \<Rightarrow> string list \<Rightarrow> bool" where
  "ladder g start goal cost path =
     (path \<noteq> [] \<and> int (length path) = cost + 1 \<and> hd path = start \<and> last path = goal
      \<and> successively (\<lambda>u v. v \<in> set (adj g u)) path
      \<and> successively (\<lambda>u v. \<exists>i. differ_only_at u v i) path
      \<and> set (butlast path) \<subseteq> keys g \<and> set (tl path) \<subseteq> graph_words g)"

lemma adj_key:
  assumes "v \<in> set (adj g u)"
  shows "u \<in> keys g"
proof -
  from assms obtain ns where "map_of g u = Some ns" by (cases "map_of g u") (auto simp: adj_def)
  then have "(u, ns) \<in> set g" by (rule map_of_SomeD)
  then show ?thesis unfolding keys_def by force
qed

lemma successively_butlast:
  "successively P p \<Longrightarrow> (\<And>u v. P u v \<Longrightarrow> u \<in> A) \<Longrightarrow> set (butlast p) \<subseteq> A"
  by (induction P p rule: successively.induct) auto

lemma successively_tl:
  "successively P p \<Longrightarrow> (\<And>u v. P u v \<Longrightarrow> v \<in> B) \<Longrightarrow> set (tl p) \<subseteq> B"
  by (induction P p rule: successively.induct) auto

lemma is_path_ladder:
  assumes "one_letter_graph g" "is_path g start goal p" "int (length p) = c + 1"
  shows "ladder g start goal c p"
proof -
  from assms(2) have s: "successively (\<lambda>u v. v \<in> set (adj g u)) p"
    and b: "p \<noteq> []" "hd p = start" "last p = goal"
    by (simp_all add: is_path_def)
  have "successively (\<lambda>u v. \<exists>i. differ_only_at u v i) p"
    by (rule successively_mono[OF s]) (use assms(1) in \<open>simp add: one_letter_graph_def\<close>)
  moreover have "set (butlast p) \<subseteq> keys g" using s by (rule successively_butlast) (rule adj_key)
  moreover have "set (tl p) \<subseteq> graph_words g"
    using s by (rule successively_tl) (use adj_subset_graph_words in blast)
  ultimately show ?thesis using s b assms(3) by (simp add: ladder_def)
qed

lemma found_result:
  assumes "sound_result g start goal r" "optimal_result g start goal r"
    "(start, goal) \<in> (edges g)\<^sup>*"
  shows "\<exists>c p. fst r = Some (c, p) \<and> is_path g start goal p \<and> int (length p) = c + 1
            \<and> (\<forall>n. (start, goal) \<in> edges g ^^ n \<longrightarrow> c \<le> int n)"
proof (cases "fst r")
  case None
  with assms(2,3) show ?thesis by (simp add: optimal_result_def)
next
  case (Some cp)
  obtain c p where "cp = (c, p)" by (cases cp) auto
  with Some assms(1,2) show ?thesis by (simp add: sound_result_def optimal_result_def)
qed

lemma least_cost_unique:
  assumes "is_path g start goal p" "int (length p) = c + 1"
    and "\<forall>n. (start, goal) \<in> edges g ^^ n \<longrightarrow> c' \<le> int n"
  shows "c' \<le> c"
proof -
  from assms(1) have "(start, goal) \<in> edges g ^^ (length p - 1)" by (rule is_path_relpow)
  with assms(3) have "c' \<le> int (length p - 1)" by blast
  moreover from assms(1) have "p \<noteq> []" by (simp add: is_path_def)
  ultimately show ?thesis using assms(2) by (cases p) simp_all
qed

text \<open>
  C2. On a graph whose entries join words one letter apart, and for a goal reachable from
  the start word, breadth-first, uniform-cost and A* search report the same cost, and each
  reports a path of \<open>cost + 1\<close> words from start to goal whose consecutive words are joined by
  an adjacency entry and differ in exactly one letter. The cost is the least number of
  steps of any walk from start to goal.
\<close>

theorem searches_agree:
  assumes "one_letter_graph g" "(start, goal) \<in> (edges g)\<^sup>*"
  shows "\<exists>cost pb pu pa.
           fst (breadth_first_search g start goal) = Some (cost, pb)
           \<and> fst (uniform_cost_search g start goal) = Some (cost, pu)
           \<and> fst (a_star_search g start goal) = Some (cost, pa)
           \<and> ladder g start goal cost pb \<and> ladder g start goal cost pu
           \<and> ladder g start goal cost pa
           \<and> (\<forall>n. (start, goal) \<in> edges g ^^ n \<longrightarrow> cost \<le> int n)"
proof -
  have co: "consistent g goal" using assms(1) by (rule one_letter_consistent)
  from found_result[OF bfs_sound bfs_optimal assms(2)] obtain cb pb where
    b: "fst (breadth_first_search g start goal) = Some (cb, pb)" "is_path g start goal pb"
      "int (length pb) = cb + 1" "\<forall>n. (start, goal) \<in> edges g ^^ n \<longrightarrow> cb \<le> int n"
    by blast
  from found_result[OF ucs_sound ucs_optimal assms(2)] obtain cu pu where
    u: "fst (uniform_cost_search g start goal) = Some (cu, pu)" "is_path g start goal pu"
      "int (length pu) = cu + 1" "\<forall>n. (start, goal) \<in> edges g ^^ n \<longrightarrow> cu \<le> int n"
    by blast
  from found_result[OF astar_sound astar_optimal[OF co] assms(2)] obtain ca pa where
    a: "fst (a_star_search g start goal) = Some (ca, pa)" "is_path g start goal pa"
      "int (length pa) = ca + 1" "\<forall>n. (start, goal) \<in> edges g ^^ n \<longrightarrow> ca \<le> int n"
    by blast
  have "cu = cb"
    using least_cost_unique[OF b(2,3) u(4)] least_cost_unique[OF u(2,3) b(4)] by simp
  moreover have "ca = cb"
    using least_cost_unique[OF b(2,3) a(4)] least_cost_unique[OF a(2,3) b(4)] by simp
  moreover note is_path_ladder[OF assms(1) b(2,3)] is_path_ladder[OF assms(1) u(2,3)]
    is_path_ladder[OF assms(1) a(2,3)]
  ultimately show ?thesis using b(1,4) u(1) a(1) by blast
qed

theorem searches_agree_witness:
  "\<exists>cost pb pu pa.
     fst (breadth_first_search
            (word_graph_of False [''cat'', ''bat'', ''hat'', ''hot'', ''dot''] {} {})
            ''cat'' ''hot'') = Some (cost, pb)
     \<and> fst (uniform_cost_search
            (word_graph_of False [''cat'', ''bat'', ''hat'', ''hot'', ''dot''] {} {})
            ''cat'' ''hot'') = Some (cost, pu)
     \<and> fst (a_star_search
            (word_graph_of False [''cat'', ''bat'', ''hat'', ''hot'', ''dot''] {} {})
            ''cat'' ''hot'') = Some (cost, pa)
     \<and> ladder (word_graph_of False [''cat'', ''bat'', ''hat'', ''hot'', ''dot''] {} {})
          ''cat'' ''hot'' cost pb
     \<and> ladder (word_graph_of False [''cat'', ''bat'', ''hat'', ''hot'', ''dot''] {} {})
          ''cat'' ''hot'' cost pu
     \<and> ladder (word_graph_of False [''cat'', ''bat'', ''hat'', ''hot'', ''dot''] {} {})
          ''cat'' ''hot'' cost pa
     \<and> (\<forall>n. (''cat'', ''hot'')
              \<in> edges (word_graph_of False [''cat'', ''bat'', ''hat'', ''hot'', ''dot''] {} {}) ^^ n
            \<longrightarrow> cost \<le> int n)"
proof -
  let ?g = "word_graph_of False [''cat'', ''bat'', ''hat'', ''hot'', ''dot''] {} {}"
  have one: "one_letter_graph ?g" by (rule word_graph_of_one_letter)
  have "''hat'' \<in> set (adj ?g ''cat'')" by code_simp
  moreover have "''hot'' \<in> set (adj ?g ''hat'')" by code_simp
  ultimately have "(''cat'', ''hat'') \<in> edges ?g" "(''hat'', ''hot'') \<in> edges ?g"
    by (simp_all add: edges_def)
  then have "(''cat'', ''hot'') \<in> (edges ?g)\<^sup>*" by (meson rtrancl.simps)
  with one show ?thesis by (rule searches_agree)
qed

end
